theory Spec2Isabelle
  imports Main "HOL-Library.Log_Nat"
begin

section \<open>JavaScript numbers\<close>

text \<open>
  The calculator of \<^verbatim>\<open>app.js\<close> computes with JavaScript Numbers, that is IEEE 754
  binary64 values. A Number is modelled by its exact value: not-a-number, an infinity
  with its sign, or a finite value given by its sign (\<open>True\<close> for negative) and its
  magnitude, a non-negative rational. Both zeros exist (\<open>Finite False 0\<close> and
  \<open>Finite True 0\<close>). Every operation computes the exact rational result and rounds it to
  the nearest binary64 value, ties to even, as IEEE 754 and ECMAScript prescribe.
\<close>

datatype number = NaN | Infinity bool | Finite bool rat

definition pow2 :: "int \<Rightarrow> rat" where
  "pow2 e = (if 0 \<le> e then of_int (2 ^ nat e) else 1 / of_int (2 ^ nat (- e)))"

definition pow10 :: "int \<Rightarrow> rat" where
  "pow10 e = (if 0 \<le> e then of_int (10 ^ nat e) else 1 / of_int (10 ^ nat (- e)))"

text \<open>
  \<open>ndigits b n\<close> is the number of digits of \<open>n\<close> in base \<open>b\<close> (0 for \<open>n \<le> 0\<close>), and
  \<open>floor_log b q\<close> is the integer \<open>e\<close> with \<open>b ^ e \<le> q < b ^ (e + 1)\<close>, for a base
  \<open>b > 1\<close> and a rational \<open>q > 0\<close>.
\<close>

function ndigits :: "int \<Rightarrow> int \<Rightarrow> int" where
  "ndigits b n = (if 0 < n \<and> 1 < b then ndigits b (n div b) + 1 else 0)"
  by pat_completeness auto
termination
  by (relation "measure (\<lambda>(b, n). nat n)") (auto simp: int_div_less_self)

declare ndigits.simps [simp del]

definition floor_log :: "int \<Rightarrow> rat \<Rightarrow> int" where
  "floor_log b q =
     (if 1 \<le> q then ndigits b \<lfloor>q\<rfloor> - 1
      else - ndigits b (\<lceil>1 / q\<rceil> - 1))"

definition round_half_even :: "rat \<Rightarrow> int" where
  "round_half_even t =
     (let f = \<lfloor>t\<rfloor>; r = t - of_int f
      in if r < 1 / 2 then f
         else if 1 / 2 < r then f + 1
         else if even f then f else f + 1)"

definition round_half_up :: "rat \<Rightarrow> int" where
  "round_half_up t = \<lfloor>t + 1 / 2\<rfloor>"

text \<open>
  Rounding a magnitude \<open>q \<ge> 0\<close> to binary64: 53 significant bits, the exponent of the
  last bit never below \<open>-1074\<close> (subnormal numbers), and an infinity for what rounds
  to \<open>2 ^ 1024\<close> or more.
\<close>

definition roundToDouble :: "bool \<Rightarrow> rat \<Rightarrow> number" where
  "roundToDouble neg q =
     (if q = 0 then Finite neg 0
      else let e = max (floor_log 2 q) (- 1022);
               v = of_int (round_half_even (q / pow2 (e - 52))) * pow2 (e - 52)
           in if e < 1023 then Finite neg v
              else if pow2 1024 \<le> v then Infinity neg
              else Finite neg v)"

definition signed :: "bool \<Rightarrow> rat \<Rightarrow> rat" where
  "signed neg q = (if neg then - q else q)"

definition isNaN :: "number \<Rightarrow> bool" where
  "isNaN x = (x = NaN)"

fun isFinite :: "number \<Rightarrow> bool" where
  "isFinite (Finite s q) = True"
| "isFinite x = False"

text \<open>The comparison \<^verbatim>\<open>b === 0\<close>: true of both zeros.\<close>

fun isZero :: "number \<Rightarrow> bool" where
  "isZero (Finite s q) = (q = 0)"
| "isZero x = False"

fun negate :: "number \<Rightarrow> number" where
  "negate NaN = NaN"
| "negate (Infinity s) = Infinity (\<not> s)"
| "negate (Finite s q) = Finite (\<not> s) q"

fun num_add :: "number \<Rightarrow> number \<Rightarrow> number" where
  "num_add NaN y = NaN"
| "num_add x NaN = NaN"
| "num_add (Infinity s) (Infinity t) = (if s = t then Infinity s else NaN)"
| "num_add (Infinity s) (Finite t q) = Infinity s"
| "num_add (Finite s p) (Infinity t) = Infinity t"
| "num_add (Finite s p) (Finite t q) =
     (let r = signed s p + signed t q
      in if r = 0 then Finite (s \<and> t) 0 else roundToDouble (r < 0) \<bar>r\<bar>)"

definition num_sub :: "number \<Rightarrow> number \<Rightarrow> number" where
  "num_sub x y = num_add x (negate y)"

fun num_mul :: "number \<Rightarrow> number \<Rightarrow> number" where
  "num_mul NaN y = NaN"
| "num_mul x NaN = NaN"
| "num_mul (Infinity s) (Infinity t) = Infinity (s \<noteq> t)"
| "num_mul (Infinity s) (Finite t q) = (if q = 0 then NaN else Infinity (s \<noteq> t))"
| "num_mul (Finite s p) (Infinity t) = (if p = 0 then NaN else Infinity (s \<noteq> t))"
| "num_mul (Finite s p) (Finite t q) = roundToDouble (s \<noteq> t) (p * q)"

fun num_div :: "number \<Rightarrow> number \<Rightarrow> number" where
  "num_div NaN y = NaN"
| "num_div x NaN = NaN"
| "num_div (Infinity s) (Infinity t) = NaN"
| "num_div (Infinity s) (Finite t q) = Infinity (s \<noteq> t)"
| "num_div (Finite s p) (Infinity t) = Finite (s \<noteq> t) 0"
| "num_div (Finite s p) (Finite t q) =
     (if q = 0 then (if p = 0 then NaN else Infinity (s \<noteq> t))
      else roundToDouble (s \<noteq> t) (p / q))"

text \<open>
  The operator \<^verbatim>\<open>%\<close>: the remainder of the truncating division, with the sign of the
  dividend.
\<close>

fun num_rem :: "number \<Rightarrow> number \<Rightarrow> number" where
  "num_rem NaN y = NaN"
| "num_rem x NaN = NaN"
| "num_rem (Infinity s) y = NaN"
| "num_rem (Finite s p) (Infinity t) = Finite s p"
| "num_rem (Finite s p) (Finite t q) =
     (if q = 0 then NaN
      else roundToDouble s (p - q * of_int \<lfloor>p / q\<rfloor>))"

section \<open>Reading and printing numbers\<close>

definition isDigit :: "char \<Rightarrow> bool" where
  "isDigit c = (c \<in> set ''0123456789'')"

definition digitValue :: "char \<Rightarrow> int" where
  "digitValue c = of_char c - 48"

definition decimalValue :: "string \<Rightarrow> int" where
  "decimalValue ds = foldl (\<lambda>a c. 10 * a + digitValue c) 0 ds"

text \<open>
  The white space that \<^verbatim>\<open>parseFloat\<close> skips, as far as it exists among 8-bit
  characters: tab, line feed, vertical tab, form feed, carriage return, space and
  no-break space.
\<close>

definition isWhiteSpace :: "char \<Rightarrow> bool" where
  "isWhiteSpace c = (c \<in> set [CHR 0x09, CHR 0x0A, CHR 0x0B, CHR 0x0C, CHR 0x0D, CHR 0x20, CHR 0xA0])"

text \<open>
  The optional exponent part of a decimal literal: \<^verbatim>\<open>e\<close> or \<^verbatim>\<open>E\<close>, an optional
  sign and at least one digit; anything else is no exponent.
\<close>

definition exponentPart :: "string \<Rightarrow> int" where
  "exponentPart r =
     (if take 1 r = ''e'' \<or> take 1 r = ''E'' then
        (if take 1 (drop 1 r) = ''-'' then - decimalValue (takeWhile isDigit (drop 2 r))
         else if take 1 (drop 1 r) = ''+'' then decimalValue (takeWhile isDigit (drop 2 r))
         else decimalValue (takeWhile isDigit (drop 1 r)))
      else 0)"

text \<open>
  \<^verbatim>\<open>parseFloat\<close>: skip white space, read the longest prefix that is a decimal literal
  (a sign, then \<^verbatim>\<open>Infinity\<close> or digits with an optional fraction and exponent), and
  round its value; \<open>NaN\<close> when there is no such prefix. The value is rounded exactly:
  ECMAScript permits an approximation only for literals of more than twenty
  significant digits.
\<close>

definition parseFloat :: "string \<Rightarrow> number" where
  "parseFloat str =
     (let t = dropWhile isWhiteSpace str;
          neg = (take 1 t = ''-'');
          u = (if take 1 t = ''-'' \<or> take 1 t = ''+'' then drop 1 t else t)
      in if take 8 u = ''Infinity'' then Infinity neg
         else
           let ip = takeWhile isDigit u;
               r1 = dropWhile isDigit u;
               hasDot = (take 1 r1 = ''.'');
               fp = (if hasDot then takeWhile isDigit (drop 1 r1) else []);
               r2 = (if hasDot then dropWhile isDigit (drop 1 r1) else r1)
           in if ip = [] \<and> fp = [] then NaN
              else roundToDouble neg
                     (of_int (decimalValue (ip @ fp)) * pow10 (exponentPart r2 - int (length fp))))"

definition digitChar :: "int \<Rightarrow> char" where
  "digitChar d = ''0123456789'' ! nat d"

text \<open>The decimal digits of a non-negative integer.\<close>

function digits :: "int \<Rightarrow> string" where
  "digits n = (if n < 10 then [digitChar n] else digits (n div 10) @ [digitChar (n mod 10)])"
  by pat_completeness auto
termination
  by (relation "measure nat") (auto simp: int_div_less_self)

declare digits.simps [simp del]

text \<open>
  \<open>sigDigits p q\<close>, for \<open>q > 0\<close>: the integers \<open>n\<close> and \<open>e\<close> of \<^verbatim>\<open>toPrecision\<close> with
  \<open>10 ^ (p - 1) \<le> n < 10 ^ p\<close> and \<open>n * 10 ^ (e - p + 1)\<close> as close to \<open>q\<close> as possible,
  the larger \<open>n\<close> of two.
\<close>

definition sigDigits :: "nat \<Rightarrow> rat \<Rightarrow> int \<times> int" where
  "sigDigits p q =
     (let e = floor_log 10 q;
          n = round_half_up (q / pow10 (e - int p + 1))
      in if n = 10 ^ p then (10 ^ (p - 1), e + 1) else (n, e))"

text \<open>
  The digits of \<^verbatim>\<open>Number.prototype.toString\<close>: the least number \<open>k\<close> of digits and
  the integers \<open>s\<close> and \<open>n\<close> with \<open>10 ^ (k - 1) \<le> s < 10 ^ k\<close> such that
  \<open>s * 10 ^ (n - k)\<close> rounds to the number; of several \<open>s\<close> the one closest to the
  number, the even one of two equally close.
\<close>

definition roundTrips :: "rat \<Rightarrow> int \<Rightarrow> int \<Rightarrow> bool" where
  "roundTrips q c e = (roundToDouble False (of_int c * pow10 e) = Finite False q)"

definition shortestAt :: "rat \<Rightarrow> nat \<Rightarrow> (int \<times> nat \<times> int) option" where
  "shortestAt q k =
     (let e = floor_log 10 q - int k + 1;
          t = q / pow10 e;
          lo = \<lfloor>t\<rfloor>;
          hi = \<lceil>t\<rceil>;
          c = (if roundTrips q lo e \<and> roundTrips q hi e then
                 (if t - of_int lo < of_int hi - t then Some lo
                  else if of_int hi - t < t - of_int lo then Some hi
                  else if even lo then Some lo else Some hi)
               else if roundTrips q lo e then Some lo
               else if roundTrips q hi e then Some hi
               else None)
      in case c of
           None \<Rightarrow> None
         | Some s \<Rightarrow> if s = 10 ^ k then Some (e + int k + 1, k, 10 ^ (k - 1))
                     else Some (e + int k, k, s))"

fun firstSome :: "('a \<Rightarrow> 'b option) \<Rightarrow> 'a list \<Rightarrow> 'b option" where
  "firstSome f [] = None"
| "firstSome f (x # xs) = (case f x of Some y \<Rightarrow> Some y | None \<Rightarrow> firstSome f xs)"

text \<open>
  The search goes up to seventeen digits, which identify every binary64 value (lemma
  \<open>shortestAt_17\<close> below); the other branch, the seventeen digits nearest to the value,
  only makes the function total.
\<close>

definition shortest :: "rat \<Rightarrow> int \<times> nat \<times> int" where
  "shortest q =
     (case firstSome (shortestAt q) [1 ..< 18] of
        Some r \<Rightarrow> r
      | None \<Rightarrow> (case sigDigits 17 q of (s, e) \<Rightarrow> (e + 1, 17, s)))"

text \<open>\<^verbatim>\<open>Number.prototype.toString()\<close>, which is also \<^verbatim>\<open>String(n)\<close>.\<close>

definition numberToString :: "number \<Rightarrow> string" where
  "numberToString x =
     (case x of
        NaN \<Rightarrow> ''NaN''
      | Infinity neg \<Rightarrow> (if neg then ''-Infinity'' else ''Infinity'')
      | Finite neg q \<Rightarrow>
          if q = 0 then ''0''
          else (if neg then ''-'' else []) @
            (case shortest q of (n, k, s) \<Rightarrow>
               if - 5 \<le> n \<and> n \<le> 21 then
                 (if int k \<le> n then digits s @ replicate (nat n - k) (CHR ''0'')
                  else if 0 < n then take (nat n) (digits s) @ ''.'' @ drop (nat n) (digits s)
                  else ''0.'' @ replicate (nat (- n)) (CHR ''0'') @ digits s)
               else
                 (if k = 1 then digits s else take 1 (digits s) @ ''.'' @ drop 1 (digits s))
                 @ ''e'' @ (if 0 < n - 1 then ''+'' else ''-'') @ digits \<bar>n - 1\<bar>))"

text \<open>\<^verbatim>\<open>Number.prototype.toPrecision(p)\<close>, for \<open>1 \<le> p \<le> 100\<close>.\<close>

definition toPrecision :: "nat \<Rightarrow> number \<Rightarrow> string" where
  "toPrecision p x =
     (case x of
        Finite neg q \<Rightarrow>
          (let sign = (if neg \<and> q \<noteq> 0 then ''-'' else []);
               (m, e) = (if q = 0 then (replicate p (CHR ''0''), 0)
                         else case sigDigits p q of (n, e) \<Rightarrow> (digits n, e))
           in if q \<noteq> 0 \<and> (e < - 6 \<or> int p \<le> e) then
                sign @ (if p \<noteq> 1 then take 1 m @ ''.'' @ drop 1 m else m)
                    @ ''e'' @ (if 0 < e then ''+'' else ''-'') @ digits \<bar>e\<bar>
              else if e = int p - 1 then sign @ m
              else if 0 \<le> e then sign @ take (nat e + 1) m @ ''.'' @ drop (nat e + 1) m
              else sign @ ''0.'' @ replicate (nat (- (e + 1))) (CHR ''0'') @ m)
      | _ \<Rightarrow> numberToString x)"

text \<open>
  The two replacements of \<^verbatim>\<open>formatNumber\<close>. The pattern
  \<^verbatim>\<open>/(\.\d*?[1-9])0+$/\<close> matches a point, digits, a last non-zero digit and one or
  more zeros up to the end of the string, and the zeros are removed; the pattern
  \<^verbatim>\<open>/\.0+$/\<close> matches a point and one or more zeros up to the end, and both are
  removed. Both are read from the end of the string.
\<close>

definition trimFractionZeros :: "string \<Rightarrow> string" where
  "trimFractionZeros str =
     (let r = rev str;
          zs = takeWhile (\<lambda>c. c = CHR ''0'') r;
          r1 = dropWhile (\<lambda>c. c = CHR ''0'') r
      in if zs \<noteq> [] \<and> take 1 (dropWhile isDigit r1) = ''.'' \<and> take 1 r1 \<noteq> ''.''
         then rev r1 else str)"

definition trimPointZeros :: "string \<Rightarrow> string" where
  "trimPointZeros str =
     (let r = rev str;
          zs = takeWhile (\<lambda>c. c = CHR ''0'') r;
          r1 = dropWhile (\<lambda>c. c = CHR ''0'') r
      in if zs \<noteq> [] \<and> take 1 r1 = ''.'' then rev (drop 1 r1) else str)"

definition formatNumber :: "number \<Rightarrow> string" where
  "formatNumber n =
     (if \<not> isFinite n then numberToString n
      else
        let s = toPrecision 12 n;
            s = (if CHR ''e'' \<in> set s then numberToString n else s)
        in if CHR ''.'' \<in> set s then trimPointZeros (trimFractionZeros s) else s)"

section \<open>The calculator\<close>

text \<open>
  The variables \<^verbatim>\<open>input\<close>, \<^verbatim>\<open>stored\<close> and \<^verbatim>\<open>operator\<close> of \<^verbatim>\<open>app.js\<close> and the text of
  the two page elements it writes, \<^verbatim>\<open>display\<close> and \<^verbatim>\<open>status\<close>. \<open>None\<close> is
  \<^verbatim>\<open>null\<close>; a string is truthy when it is not empty.
\<close>

record state =
  input :: string
  stored :: "string option"
  operator :: "string option"
  display :: string
  status :: string

datatype calc_error = InvalidNumber | DivisionByZero | UnsupportedOperator

fun error_message :: "calc_error \<Rightarrow> string" where
  "error_message InvalidNumber = ''Invalid number''"
| "error_message DivisionByZero = ''Division by zero''"
| "error_message UnsupportedOperator = ''Unsupported operator''"

definition clearAll :: "state \<Rightarrow> state" where
  "clearAll s = \<lparr>input = [], stored = None, operator = None, display = ''0'', status = []\<rparr>"

definition setInputChar :: "string \<Rightarrow> state \<Rightarrow> state" where
  "setInputChar ch s =
     (if ch = ''.'' \<and> CHR ''.'' \<in> set (input s) then s
      else
        let i1 = (if ch = ''.'' \<and> input s = [] then ''0'' else input s);
            i2 = (if i1 = ''0'' \<and> ch \<noteq> ''.'' then ch else i1 @ ch)
        in s\<lparr>input := i2, display := i2\<rparr>)"

definition flipSign :: "string \<Rightarrow> string" where
  "flipSign str = (if take 1 str = ''-'' then drop 1 str else ''-'' @ str)"

definition toggleSign :: "state \<Rightarrow> state" where
  "toggleSign s =
     (if input s = [] then
        (case stored s of
           Some st \<Rightarrow> s\<lparr>stored := Some (flipSign st), display := flipSign st\<rparr>
         | None \<Rightarrow> s\<lparr>input := ''-0'', display := ''-0''\<rparr>)
      else s\<lparr>input := flipSign (input s), display := flipSign (input s)\<rparr>)"

text \<open>
  \<^verbatim>\<open>computeLocal\<close> returns the formatted result or an error. Its \<^verbatim>\<open>catch\<close> branch is
  left out: arithmetic on Numbers and \<^verbatim>\<open>formatNumber\<close> throw no exception.
\<close>

definition computeLocal :: "string \<Rightarrow> string \<Rightarrow> string \<Rightarrow> calc_error + string" where
  "computeLocal aStr bStr op =
     (let a = parseFloat aStr; b = parseFloat bStr
      in if isNaN a \<or> isNaN b then Inl InvalidNumber
         else if op = ''+'' then Inr (formatNumber (num_add a b))
         else if op = ''-'' then Inr (formatNumber (num_sub a b))
         else if op = ''*'' then Inr (formatNumber (num_mul a b))
         else if op = ''/'' then
           (if isZero b then Inl DivisionByZero else Inr (formatNumber (num_div a b)))
         else if op = ''%'' then
           (if isZero b then Inl DivisionByZero else Inr (formatNumber (num_rem a b)))
         else Inl UnsupportedOperator)"

definition truthy :: "string option \<Rightarrow> bool" where
  "truthy x = (case x of None \<Rightarrow> False | Some str \<Rightarrow> str \<noteq> [])"

text \<open>What every handler does when \<^verbatim>\<open>computeLocal\<close> fails.\<close>

definition errorReset :: "calc_error \<Rightarrow> state \<Rightarrow> state" where
  "errorReset err s =
     \<lparr>input = [], stored = None, operator = None, display = ''Error'', status = error_message err\<rparr>"

definition pressOperator :: "string \<Rightarrow> state \<Rightarrow> state" where
  "pressOperator op s =
     (if input s \<noteq> [] \<and> stored s = None then
        s\<lparr>stored := Some (input s), input := [], operator := Some op,
          display := input s, status := input s @ '' '' @ op\<rparr>
      else
        case stored s of
          None \<Rightarrow> s
        | Some st \<Rightarrow>
            if input s \<noteq> [] then
              (case computeLocal st (input s) (if truthy (operator s) then the (operator s) else op) of
                 Inl err \<Rightarrow> errorReset err s
               | Inr res \<Rightarrow>
                   s\<lparr>stored := Some res, input := [], operator := Some op,
                     display := res, status := res @ '' '' @ op\<rparr>)
            else s\<lparr>operator := Some op, status := st @ '' '' @ op\<rparr>)"

definition pressPercent :: "state \<Rightarrow> state" where
  "pressPercent s =
     (if input s \<noteq> [] then
        (let val = parseFloat (input s)
         in if isNaN val then s\<lparr>status := ''Invalid number''\<rparr>
            else s\<lparr>input := formatNumber (num_div val (Finite False 100)),
                   display := formatNumber (num_div val (Finite False 100))\<rparr>)
      else
        case stored s of
          None \<Rightarrow> s
        | Some st \<Rightarrow>
            (let val = parseFloat st
             in if isNaN val then s\<lparr>status := ''Invalid number''\<rparr>
                else s\<lparr>stored := Some (formatNumber (num_div val (Finite False 100))),
                       display := formatNumber (num_div val (Finite False 100)),
                       status := []\<rparr>))"

definition pressEquals :: "state \<Rightarrow> state" where
  "pressEquals s =
     (if \<not> truthy (operator s) then
        (if input s \<noteq> [] then s\<lparr>display := input s\<rparr>
         else if truthy (stored s) then s\<lparr>display := the (stored s)\<rparr>
         else s)
      else
        let a = (case stored s of None \<Rightarrow> ''0'' | Some st \<Rightarrow> st);
            b = (if input s = [] then (case stored s of None \<Rightarrow> ''0'' | Some st \<Rightarrow> st)
                 else input s)
        in case computeLocal a b (the (operator s)) of
             Inl err \<Rightarrow> errorReset err s
           | Inr res \<Rightarrow>
               \<lparr>input = [], stored = Some res, operator = None, display = res,
                status = a @ '' '' @ the (operator s) @ '' '' @ b @ '' =''\<rparr>)"

text \<open>The \<^verbatim>\<open>Backspace\<close> branch of the \<^verbatim>\<open>keydown\<close> handler.\<close>

definition backspace :: "state \<Rightarrow> state" where
  "backspace s =
     (if input s \<noteq> [] then
        s\<lparr>input := butlast (input s),
          display := (if butlast (input s) = [] then ''0'' else butlast (input s))\<rparr>
      else s\<lparr>operator := None, status := []\<rparr>)"

text \<open>
  The events that the click and key handlers forward: a digit button or key calls
  \<^verbatim>\<open>setInputChar\<close> with its character, an operator button or key calls
  \<^verbatim>\<open>pressOperator\<close> with its symbol.
\<close>

datatype event = Digit char | ToggleSign | Percent | Operator string | Equals | Clear | Backspace

fun step :: "state \<Rightarrow> event \<Rightarrow> state" where
  "step s (Digit c) = setInputChar [c] s"
| "step s ToggleSign = toggleSign s"
| "step s Percent = pressPercent s"
| "step s (Operator op) = pressOperator op s"
| "step s Equals = pressEquals s"
| "step s Clear = clearAll s"
| "step s Backspace = backspace s"

definition run :: "state \<Rightarrow> event list \<Rightarrow> state" where
  "run s evs = foldl step s evs"

text \<open>The state after \<^verbatim>\<open>clearAll()\<close>, with which the script starts.\<close>

definition cleared :: state where
  "cleared = \<lparr>input = [], stored = None, operator = None, display = ''0'', status = []\<rparr>"

text \<open>The public events: the digits and the point, and the five operators.\<close>

fun public_event :: "event \<Rightarrow> bool" where
  "public_event (Digit c) = (isDigit c \<or> c = CHR ''.'')"
| "public_event (Operator op) = (op \<in> set [''+'', ''-'', ''*'', ''/'', ''%''])"
| "public_event e = True"

section \<open>Properties named by the specification\<close>




text \<open>Two states with the same three calculator variables.\<close>

definition same_vars :: "state \<Rightarrow> state \<Rightarrow> bool" where
  "same_vars s t = (input s = input t \<and> stored s = stored t \<and> operator s = operator t)"

text \<open>
  The magnitudes of binary64: the rationals that rounding leaves as they are. The
  Numbers are not-a-number, the infinities, and the finite values of such a magnitude.
\<close>

definition isDouble :: "rat \<Rightarrow> bool" where
  "isDouble q = (0 \<le> q \<and> roundToDouble False q = Finite False q)"

fun isNumber :: "number \<Rightarrow> bool" where
  "isNumber (Finite neg q) = isDouble q"
| "isNumber x = True"

section \<open>Handlers, unfolded\<close>

lemma setInputChar_unfold:
  "setInputChar ch s =
     (if ch = ''.'' \<and> CHR ''.'' \<in> set (input s) then s
      else if ch = ''.'' \<and> input s = [] then s\<lparr>input := ''0.'', display := ''0.''\<rparr>
      else if input s = ''0'' \<and> ch \<noteq> ''.'' then s\<lparr>input := ch, display := ch\<rparr>
      else s\<lparr>input := input s @ ch, display := input s @ ch\<rparr>)"
  unfolding setInputChar_def Let_def
  by (cases "ch = ''.''"; cases "input s = []"; cases "input s = ''0''") simp_all

lemma same_vars_digit: "same_vars s t \<Longrightarrow> same_vars (setInputChar [c] s) (setInputChar [c] t)"
  by (cases "c = CHR ''.''") (simp_all add: same_vars_def setInputChar_unfold)

lemma same_vars_sign: "same_vars s t \<Longrightarrow> same_vars (toggleSign s) (toggleSign t)"
  by (simp add: same_vars_def toggleSign_def split: option.split)

lemma same_vars_percent: "same_vars s t \<Longrightarrow> same_vars (pressPercent s) (pressPercent t)"
  by (simp add: same_vars_def pressPercent_def Let_def split: option.split)

lemma same_vars_operator: "same_vars s t \<Longrightarrow> same_vars (pressOperator op s) (pressOperator op t)"
  by (simp add: same_vars_def pressOperator_def errorReset_def split: option.split sum.split)

lemma same_vars_equals: "same_vars s t \<Longrightarrow> same_vars (pressEquals s) (pressEquals t)"
  by (simp add: same_vars_def pressEquals_def errorReset_def Let_def split: option.split sum.split)

lemma same_vars_backspace: "same_vars s t \<Longrightarrow> same_vars (backspace s) (backspace t)"
  by (simp add: same_vars_def backspace_def)

lemma same_vars_step: "same_vars s t \<Longrightarrow> same_vars (step s e) (step t e)"
  by (cases e)
    (simp_all add: same_vars_digit same_vars_sign same_vars_percent same_vars_operator
      same_vars_equals same_vars_backspace, simp add: same_vars_def clearAll_def)

lemma same_vars_run: "same_vars s t \<Longrightarrow> same_vars (run s evs) (run t evs)"
  unfolding run_def
  by (induction evs arbitrary: s t) (simp_all add: same_vars_step)

lemma pressOperator_error:
  "stored s = Some st \<Longrightarrow> input s \<noteq> [] \<Longrightarrow>
   computeLocal st (input s) (if truthy (operator s) then the (operator s) else op) = Inl err \<Longrightarrow>
   pressOperator op s = errorReset err s"
  by (simp add: pressOperator_def)

lemma pressEquals_error:
  "truthy (operator s) \<Longrightarrow>
   computeLocal (case stored s of None \<Rightarrow> ''0'' | Some st \<Rightarrow> st)
     (if input s = [] then (case stored s of None \<Rightarrow> ''0'' | Some st \<Rightarrow> st) else input s)
     (the (operator s)) = Inl err \<Longrightarrow>
   pressEquals s = errorReset err s"
  by (simp add: pressEquals_def Let_def)

lemma pressPercent_invalid_input:
  "input s \<noteq> [] \<Longrightarrow> isNaN (parseFloat (input s)) \<Longrightarrow>
   pressPercent s = s\<lparr>status := ''Invalid number''\<rparr>"
  by (simp add: pressPercent_def)

lemma pressPercent_invalid_stored:
  "input s = [] \<Longrightarrow> stored s = Some st \<Longrightarrow> isNaN (parseFloat st) \<Longrightarrow>
   pressPercent s = s\<lparr>status := ''Invalid number''\<rparr>"
  by (simp add: pressPercent_def)

section \<open>Errors\<close>

text \<open>
  C1, as amended. When \<^verbatim>\<open>computeLocal\<close> fails while an Operator or an Equals event is
  processed, whatever the error, the three variables are cleared, the display reads
  \<^verbatim>\<open>Error\<close> and the status line is the message of the error; from there on the
  variables evolve as they do after Clear, under every sequence of events, and a
  following digit is displayed as it is after Clear, the digit 1 as \<^verbatim>\<open>1\<close>. The two
  texts themselves are not those of Clear: they stay until an event writes them, so
  that a following Equals changes nothing and leaves \<^verbatim>\<open>Error\<close> and the message.
  A Percent event whose operand does not parse only sets the status line to
  \<^verbatim>\<open>Invalid number\<close>.
\<close>

theorem error_resets_state:
  "(stored s = Some st \<and> input s \<noteq> [] \<and>
    computeLocal st (input s) (if truthy (operator s) then the (operator s) else op) = Inl err \<longrightarrow>
      step s (Operator op) =
        \<lparr>input = [], stored = None, operator = None, display = ''Error'', status = error_message err\<rparr>) \<and>
   (truthy (operator s) \<and>
    computeLocal (case stored s of None \<Rightarrow> ''0'' | Some st \<Rightarrow> st)
      (if input s = [] then (case stored s of None \<Rightarrow> ''0'' | Some st \<Rightarrow> st) else input s)
      (the (operator s)) = Inl err \<longrightarrow>
      step s Equals =
        \<lparr>input = [], stored = None, operator = None, display = ''Error'', status = error_message err\<rparr>) \<and>
   input (run \<lparr>input = [], stored = None, operator = None, display = ''Error'', status = error_message err\<rparr> evs)
     = input (run (clearAll s) evs) \<and>
   stored (run \<lparr>input = [], stored = None, operator = None, display = ''Error'', status = error_message err\<rparr> evs)
     = stored (run (clearAll s) evs) \<and>
   operator (run \<lparr>input = [], stored = None, operator = None, display = ''Error'', status = error_message err\<rparr> evs)
     = operator (run (clearAll s) evs) \<and>
   display (step \<lparr>input = [], stored = None, operator = None, display = ''Error'', status = error_message err\<rparr>
              (Digit (CHR ''1''))) = ''1'' \<and>
   display (step \<lparr>input = [], stored = None, operator = None, display = ''Error'', status = error_message err\<rparr>
              (Digit c)) = display (step (clearAll s) (Digit c)) \<and>
   step \<lparr>input = [], stored = None, operator = None, display = ''Error'', status = error_message err\<rparr> Equals
     = \<lparr>input = [], stored = None, operator = None, display = ''Error'', status = error_message err\<rparr> \<and>
   (input s \<noteq> [] \<and> isNaN (parseFloat (input s)) \<longrightarrow> step s Percent = s\<lparr>status := ''Invalid number''\<rparr>) \<and>
   (input s = [] \<and> stored s = Some st \<and> isNaN (parseFloat st) \<longrightarrow>
      step s Percent = s\<lparr>status := ''Invalid number''\<rparr>)"
proof -
  let ?r = "\<lparr>input = [], stored = None, operator = None, display = ''Error'', status = error_message err\<rparr>"
  have same: "input (run ?r evs) = input (run (clearAll s) evs) \<and>
      stored (run ?r evs) = stored (run (clearAll s) evs) \<and>
      operator (run ?r evs) = operator (run (clearAll s) evs)"
    using same_vars_run [of ?r "clearAll s" evs] by (simp add: same_vars_def clearAll_def)
  have digit: "display (step ?r (Digit (CHR ''1''))) = ''1''"
    by (simp add: setInputChar_unfold)
  have digits: "display (step ?r (Digit c)) = display (step (clearAll s) (Digit c))"
    by (cases "c = CHR ''.''") (simp_all add: setInputChar_unfold clearAll_def)
  have equals: "step ?r Equals = ?r"
    by (simp add: pressEquals_def truthy_def)
  show ?thesis
    using same digit digits equals
    by (simp add: pressOperator_error pressEquals_error pressPercent_invalid_input
        pressPercent_invalid_stored errorReset_def)
qed

theorem error_resets_state_witness:
  "step \<lparr>input = ''0'', stored = Some ''7'', operator = Some ''/'', display = ''0'', status = ''7 /''\<rparr>
     (Operator ''+'') =
     \<lparr>input = [], stored = None, operator = None, display = ''Error'', status = ''Division by zero''\<rparr> \<and>
   step \<lparr>input = ''0'', stored = Some ''7'', operator = Some ''/'', display = ''0'', status = ''7 /''\<rparr>
     Equals =
     \<lparr>input = [], stored = None, operator = None, display = ''Error'', status = ''Division by zero''\<rparr> \<and>
   step \<lparr>input = ''-'', stored = None, operator = None, display = ''-'', status = []\<rparr> Percent =
     \<lparr>input = ''-'', stored = None, operator = None, display = ''-'', status = ''Invalid number''\<rparr> \<and>
   step \<lparr>input = [], stored = Some ''-'', operator = Some ''+'', display = ''-'', status = ''- +''\<rparr> Percent =
     \<lparr>input = [], stored = Some ''-'', operator = Some ''+'', display = ''-'', status = ''Invalid number''\<rparr>"
proof -
  let ?s = "\<lparr>input = ''0'', stored = Some ''7'', operator = Some ''/'', display = ''0'', status = ''7 /''\<rparr>"
  let ?p = "\<lparr>input = ''-'', stored = None, operator = None, display = ''-'', status = []\<rparr>"
  let ?q = "\<lparr>input = [], stored = Some ''-'', operator = Some ''+'', display = ''-'', status = ''- +''\<rparr>"
  have c: "computeLocal ''7'' ''0'' ''/'' = Inl DivisionByZero"
    by code_simp
  have n: "isNaN (parseFloat ''-'')"
    by code_simp
  show ?thesis
    using error_resets_state [where s = ?s and st = "''7''" and op = "''+''" and err = DivisionByZero]
      error_resets_state [where s = ?p and st = "''-''" and op = "''+''" and err = DivisionByZero]
      error_resets_state [where s = ?q and st = "''-''" and op = "''+''" and err = DivisionByZero] c n
    by (simp add: truthy_def)
qed

text \<open>
  C1 as stated fails in two places. For Percent: after 5, sign toggle and Backspace the
  input is \<^verbatim>\<open>-\<close>, which does not parse; Percent then reports \<^verbatim>\<open>Invalid number\<close> but
  clears nothing and leaves the display as it was. And after the reset the calculator
  does not behave exactly as after Clear: following the division of 7 by 0, Equals or
  Backspace leaves the display \<^verbatim>\<open>Error\<close> where it is \<^verbatim>\<open>0\<close> after Clear, and a digit
  leaves the status line \<^verbatim>\<open>Division by zero\<close> where it is empty after Clear.
\<close>

theorem error_handling_differs:
  "list_all public_event [Digit (CHR ''5''), ToggleSign, Backspace, Percent] \<and>
   run cleared [Digit (CHR ''5''), ToggleSign, Backspace] =
     \<lparr>input = ''-'', stored = None, operator = None, display = ''-'', status = []\<rparr> \<and>
   isNaN (parseFloat ''-'') \<and>
   run cleared [Digit (CHR ''5''), ToggleSign, Backspace, Percent] =
     \<lparr>input = ''-'', stored = None, operator = None, display = ''-'', status = ''Invalid number''\<rparr> \<and>
   list_all public_event
     [Digit (CHR ''7''), Operator ''/'', Digit (CHR ''0''), Equals, Equals, Backspace, Digit (CHR ''1''), Clear] \<and>
   run cleared [Digit (CHR ''7''), Operator ''/'', Digit (CHR ''0''), Equals] =
     \<lparr>input = [], stored = None, operator = None, display = ''Error'', status = ''Division by zero''\<rparr> \<and>
   display (run cleared [Digit (CHR ''7''), Operator ''/'', Digit (CHR ''0''), Equals, Equals]) = ''Error'' \<and>
   display (run cleared [Clear, Equals]) = ''0'' \<and>
   display (run cleared [Digit (CHR ''7''), Operator ''/'', Digit (CHR ''0''), Equals, Backspace]) = ''Error'' \<and>
   display (run cleared [Clear, Backspace]) = ''0'' \<and>
   status (run cleared [Digit (CHR ''7''), Operator ''/'', Digit (CHR ''0''), Equals, Digit (CHR ''1'')])
     = ''Division by zero'' \<and>
   status (run cleared [Clear, Digit (CHR ''1'')]) = []"
  by code_simp

text \<open>
  C2, as amended. When the right operand parses to zero and the operator is
  \<^verbatim>\<open>/\<close> or \<^verbatim>\<open>%\<close>, \<^verbatim>\<open>computeLocal\<close> returns an error and no result: division by zero
  when the left operand parses, invalid number when it does not. An Equals or
  Operator event that evaluates such a division displays \<^verbatim>\<open>Error\<close>; the operator
  that an Operator event evaluates is the pending one or, when none is pending, the
  one pressed.
\<close>

theorem division_by_zero:
  "(isZero (parseFloat b) \<and> (op = ''/'' \<or> op = ''%'') \<longrightarrow>
      computeLocal a b op = Inl (if isNaN (parseFloat a) then InvalidNumber else DivisionByZero)) \<and>
   (truthy (operator s) \<and> (the (operator s) = ''/'' \<or> the (operator s) = ''%'') \<and>
    isZero (parseFloat (if input s = [] then (case stored s of None \<Rightarrow> ''0'' | Some st \<Rightarrow> st) else input s)) \<longrightarrow>
      display (step s Equals) = ''Error'') \<and>
   (stored s = Some st \<and> input s \<noteq> [] \<and>
    ((if truthy (operator s) then the (operator s) else op') = ''/'' \<or>
     (if truthy (operator s) then the (operator s) else op') = ''%'') \<and>
    isZero (parseFloat (input s)) \<longrightarrow>
      display (step s (Operator op')) = ''Error'')"
proof -
  have c: "computeLocal x y opr = Inl (if isNaN (parseFloat x) then InvalidNumber else DivisionByZero)"
    if "isZero (parseFloat y)" "opr = ''/'' \<or> opr = ''%''" for x y opr
    using that by (auto simp: computeLocal_def Let_def isNaN_def)
  have e: "display (step s Equals) = ''Error''"
    if "truthy (operator s)" "the (operator s) = ''/'' \<or> the (operator s) = ''%''"
      "isZero (parseFloat (if input s = [] then (case stored s of None \<Rightarrow> ''0'' | Some st \<Rightarrow> st) else input s))"
    using that c [of "if input s = [] then (case stored s of None \<Rightarrow> ''0'' | Some st \<Rightarrow> st) else input s"
        "the (operator s)" "case stored s of None \<Rightarrow> ''0'' | Some st \<Rightarrow> st"]
    by (simp add: pressEquals_def Let_def errorReset_def)
  have p: "display (step s (Operator op')) = ''Error''"
    if "stored s = Some st" "input s \<noteq> []"
      "(if truthy (operator s) then the (operator s) else op') = ''/'' \<or>
       (if truthy (operator s) then the (operator s) else op') = ''%''"
      "isZero (parseFloat (input s))"
  proof -
    from c [OF that(4) that(3), of st] that(1,2) show ?thesis
      by (simp add: pressOperator_def errorReset_def)
  qed
  from c e p show ?thesis by blast
qed

theorem division_by_zero_witness:
  "computeLocal ''7'' ''0'' ''/'' = Inl DivisionByZero \<and>
   computeLocal ''7'' ''-0.0'' ''%'' = Inl DivisionByZero \<and>
   computeLocal ''-'' ''0'' ''/'' = Inl InvalidNumber \<and>
   display (step \<lparr>input = ''0'', stored = Some ''7'', operator = Some ''/'', display = ''0'', status = ''7 /''\<rparr>
     Equals) = ''Error'' \<and>
   display (step \<lparr>input = ''0'', stored = Some ''7'', operator = Some ''%'', display = ''0'', status = ''7 %''\<rparr>
     (Operator ''+'')) = ''Error'' \<and>
   display (step \<lparr>input = ''0'', stored = Some ''8'', operator = None, display = ''0'', status = ''5 + 3 =''\<rparr>
     (Operator ''/'')) = ''Error''"
proof -
  let ?s = "\<lparr>input = ''0'', stored = Some ''7'', operator = Some ''/'', display = ''0'', status = ''7 /''\<rparr>"
  let ?t = "\<lparr>input = ''0'', stored = Some ''7'', operator = Some ''%'', display = ''0'', status = ''7 %''\<rparr>"
  let ?u = "\<lparr>input = ''0'', stored = Some ''8'', operator = None, display = ''0'', status = ''5 + 3 =''\<rparr>"
  have z: "isZero (parseFloat ''0'')" "isZero (parseFloat ''-0.0'')"
    by code_simp+
  have n: "isNaN (parseFloat ''-'')" "\<not> isNaN (parseFloat ''7'')"
    by code_simp+
  show ?thesis
    using division_by_zero [of "''0''" "''/''" "''7''" ?s "''7''" "''+''"]
      division_by_zero [of "''-0.0''" "''%''" "''7''" ?t "''7''" "''+''"]
      division_by_zero [of "''0''" "''/''" "''-''" ?s "''7''" "''+''"]
      division_by_zero [of "''0''" "''/''" "''7''" ?u "''8''" "''/''"] z n
    by (simp add: truthy_def)
qed

text \<open>
  C2 as stated fails when the left operand does not parse: the check for invalid
  numbers comes first. The operands \<^verbatim>\<open>-\<close> and \<^verbatim>\<open>0\<close> are reached by public events.
\<close>

theorem division_by_zero_unparsed_dividend:
  "isZero (parseFloat ''0'') \<and> computeLocal ''-'' ''0'' ''/'' = Inl InvalidNumber \<and>
   list_all public_event
     [Digit (CHR ''5''), ToggleSign, Backspace, Operator ''/'', Digit (CHR ''0''), Equals] \<and>
   run cleared [Digit (CHR ''5''), ToggleSign, Backspace, Operator ''/'', Digit (CHR ''0'')] =
     \<lparr>input = ''0'', stored = Some ''-'', operator = Some ''/'', display = ''0'', status = ''- /''\<rparr> \<and>
   status (run cleared
     [Digit (CHR ''5''), ToggleSign, Backspace, Operator ''/'', Digit (CHR ''0''), Equals]) = ''Invalid number''"
  by code_simp

section \<open>Operators and sign\<close>

text \<open>
  C7. With a stored operand and no input, an Operator event replaces the pending
  operator (and the status line that shows it) and nothing else: there is no
  evaluation, and the stored operand, the input and the display stay as they are.
  So 9, +, -, 2, = displays 7.
\<close>

theorem operator_twice:
  "(stored s = Some st \<and> input s = [] \<longrightarrow>
      step s (Operator op) = s\<lparr>operator := Some op, status := st @ '' '' @ op\<rparr>) \<and>
   display (run cleared [Digit (CHR ''9''), Operator ''+'', Operator ''-'', Digit (CHR ''2''), Equals]) = ''7''"
proof -
  have "display (run cleared [Digit (CHR ''9''), Operator ''+'', Operator ''-'', Digit (CHR ''2''), Equals]) = ''7''"
    by code_simp
  then show ?thesis by (simp add: pressOperator_def)
qed

theorem operator_twice_witness:
  "step \<lparr>input = [], stored = Some ''9'', operator = Some ''+'', display = ''9'', status = ''9 +''\<rparr> (Operator ''-'')
     = \<lparr>input = [], stored = Some ''9'', operator = Some ''-'', display = ''9'', status = ''9 -''\<rparr>"
  using operator_twice [of "\<lparr>input = [], stored = Some ''9'', operator = Some ''+'', display = ''9'', status = ''9 +''\<rparr>" "''9''" "''-''"]
  by simp

definition operator_needs_stored :: "state \<Rightarrow> bool" where
  "operator_needs_stored s = (operator s = None \<or> stored s \<noteq> None)"

text \<open>
  C10. A sign toggle with no input and no stored operand sets the input to
  \<^verbatim>\<open>-0\<close> and displays it; a second one gives \<^verbatim>\<open>0\<close>.
\<close>

theorem toggleSign_cleared:
  "input s = [] \<and> stored s = None \<longrightarrow>
     input (step s ToggleSign) = ''-0'' \<and> display (step s ToggleSign) = ''-0'' \<and>
     input (step (step s ToggleSign) ToggleSign) = ''0'' \<and>
     display (step (step s ToggleSign) ToggleSign) = ''0''"
  by (simp add: toggleSign_def flipSign_def)

theorem toggleSign_cleared_witness:
  "input (run cleared [ToggleSign]) = ''-0'' \<and> display (run cleared [ToggleSign]) = ''-0'' \<and>
   input (run cleared [ToggleSign, ToggleSign]) = ''0'' \<and>
   display (run cleared [ToggleSign, ToggleSign]) = ''0''"
  using toggleSign_cleared [of cleared] by (simp add: run_def cleared_def)

section \<open>Equals, and the pending operator\<close>

text \<open>
  C4. With no pending operator, Equals changes nothing but the display, which it
  refreshes with the input, or the stored operand when there is no input. With a
  pending operator it evaluates the stored operand (\<^verbatim>\<open>0\<close> if there is none) against
  the input, or against the same left operand when there is no input; on success the
  result is the new stored operand and the display, input and pending operator are
  cleared, and the status line is the expression followed by \<^verbatim>\<open>=\<close>. So 5, +, 3, =
  displays 8 with status \<^verbatim>\<open>5 + 3 =\<close>.
\<close>

theorem equals_evaluates:
  "(operator s = None \<longrightarrow>
      step s Equals =
        s\<lparr>display := (if input s \<noteq> [] then input s
                       else if truthy (stored s) then the (stored s) else display s)\<rparr>) \<and>
   (operator s = Some op \<and> op \<noteq> [] \<and>
    computeLocal (case stored s of None \<Rightarrow> ''0'' | Some st \<Rightarrow> st)
      (if input s \<noteq> [] then input s else (case stored s of None \<Rightarrow> ''0'' | Some st \<Rightarrow> st))
      op = Inr res \<longrightarrow>
      step s Equals =
        \<lparr>input = [], stored = Some res, operator = None, display = res,
         status = (case stored s of None \<Rightarrow> ''0'' | Some st \<Rightarrow> st) @ '' '' @ op @ '' '' @
           (if input s \<noteq> [] then input s else (case stored s of None \<Rightarrow> ''0'' | Some st \<Rightarrow> st))
           @ '' =''\<rparr>) \<and>
   display (run cleared [Digit (CHR ''5''), Operator ''+'', Digit (CHR ''3''), Equals]) = ''8'' \<and>
   status (run cleared [Digit (CHR ''5''), Operator ''+'', Digit (CHR ''3''), Equals]) = ''5 + 3 =''"
proof -
  have "display (run cleared [Digit (CHR ''5''), Operator ''+'', Digit (CHR ''3''), Equals]) = ''8''"
    "status (run cleared [Digit (CHR ''5''), Operator ''+'', Digit (CHR ''3''), Equals]) = ''5 + 3 =''"
    by code_simp+
  moreover have "operator s = None \<Longrightarrow> step s Equals =
        s\<lparr>display := (if input s \<noteq> [] then input s
                       else if truthy (stored s) then the (stored s) else display s)\<rparr>"
    by (simp add: pressEquals_def truthy_def)
  moreover have "step s Equals =
        \<lparr>input = [], stored = Some res, operator = None, display = res,
         status = (case stored s of None \<Rightarrow> ''0'' | Some st \<Rightarrow> st) @ '' '' @ op @ '' '' @
           (if input s \<noteq> [] then input s else (case stored s of None \<Rightarrow> ''0'' | Some st \<Rightarrow> st))
           @ '' =''\<rparr>"
    if "operator s = Some op" "op \<noteq> []"
      "computeLocal (case stored s of None \<Rightarrow> ''0'' | Some st \<Rightarrow> st)
      (if input s \<noteq> [] then input s else (case stored s of None \<Rightarrow> ''0'' | Some st \<Rightarrow> st))
      op = Inr res"
  proof (cases "input s = []")
    case True
    with that show ?thesis by (simp add: pressEquals_def truthy_def Let_def)
  next
    case False
    with that show ?thesis by (simp add: pressEquals_def truthy_def Let_def)
  qed
  ultimately show ?thesis by blast
qed

theorem equals_evaluates_witness:
  "step \<lparr>input = ''3'', stored = Some ''5'', operator = Some ''+'', display = ''3'', status = ''5 +''\<rparr> Equals =
     \<lparr>input = [], stored = Some ''8'', operator = None, display = ''8'', status = ''5 + 3 =''\<rparr> \<and>
   step \<lparr>input = [], stored = Some ''5'', operator = Some ''*'', display = ''5'', status = ''5 *''\<rparr> Equals =
     \<lparr>input = [], stored = Some ''25'', operator = None, display = ''25'', status = ''5 * 5 =''\<rparr> \<and>
   step \<lparr>input = [], stored = Some ''8'', operator = None, display = ''0'', status = []\<rparr> Equals =
     \<lparr>input = [], stored = Some ''8'', operator = None, display = ''8'', status = []\<rparr>"
proof -
  let ?s = "\<lparr>input = ''3'', stored = Some ''5'', operator = Some ''+'', display = ''3'', status = ''5 +''\<rparr>"
  let ?t = "\<lparr>input = [], stored = Some ''5'', operator = Some ''*'', display = ''5'', status = ''5 *''\<rparr>"
  let ?u = "\<lparr>input = [], stored = Some ''8'', operator = None, display = ''0'', status = []\<rparr>"
  have c: "computeLocal ''5'' ''3'' ''+'' = Inr ''8''" "computeLocal ''5'' ''5'' ''*'' = Inr ''25''"
    by code_simp+
  show ?thesis
    using equals_evaluates [of ?s "''+''" "''8''"] equals_evaluates [of ?t "''*''" "''25''"]
      equals_evaluates [of ?u "''+''" "''8''"] c
    by (simp add: truthy_def)
qed

lemma step_keeps_stored:
  assumes "operator s = None \<or> stored s \<noteq> None"
  shows "operator (step s e) = None \<or> stored (step s e) \<noteq> None"
proof (cases e)
  case (Digit c)
  with assms show ?thesis by (cases "c = CHR ''.''") (auto simp: setInputChar_unfold)
next
  case ToggleSign
  with assms show ?thesis by (auto simp: toggleSign_def split: option.splits)
next
  case Percent
  with assms show ?thesis by (auto simp: pressPercent_def Let_def split: option.splits)
next
  case (Operator op)
  with assms show ?thesis
    by (auto simp: pressOperator_def errorReset_def split: option.splits sum.splits)
next
  case Equals
  with assms show ?thesis
    by (auto simp: pressEquals_def errorReset_def Let_def split: option.splits sum.splits)
next
  case Clear
  then show ?thesis by (simp add: clearAll_def)
next
  case Backspace
  with assms show ?thesis by (auto simp: backspace_def)
qed

lemma run_keeps_stored:
  "operator s = None \<or> stored s \<noteq> None \<Longrightarrow> operator (run s evs) = None \<or> stored (run s evs) \<noteq> None"
  unfolding run_def
proof (induction evs arbitrary: s)
  case Nil
  then show ?case by simp
next
  case (Cons e evs)
  from Cons.IH [OF step_keeps_stored [OF Cons.prems, of e]] show ?case by simp
qed

text \<open>
  C5. In every state reached from the cleared state, by whatever events, a pending
  operator implies a stored operand; and every event handler preserves this
  implication, from any state.
\<close>

theorem operator_only_with_stored:
  "(operator (run cleared evs) \<noteq> None \<longrightarrow> stored (run cleared evs) \<noteq> None) \<and>
   ((operator s \<noteq> None \<longrightarrow> stored s \<noteq> None) \<longrightarrow>
    (operator (step s e) \<noteq> None \<longrightarrow> stored (step s e) \<noteq> None))"
  using run_keeps_stored [of cleared evs] step_keeps_stored [of s e]
  by (auto simp: cleared_def)

theorem operator_only_with_stored_witness:
  "operator (run cleared [Digit (CHR ''5''), Operator ''+'']) = Some ''+'' \<and>
   stored (run cleared [Digit (CHR ''5''), Operator ''+'']) = Some ''5'' \<and>
   operator (step \<lparr>input = ''3'', stored = Some ''5'', operator = Some ''+'', display = ''3'', status = ''5 +''\<rparr>
     Backspace) = Some ''+'' \<and>
   stored (step \<lparr>input = ''3'', stored = Some ''5'', operator = Some ''+'', display = ''3'', status = ''5 +''\<rparr>
     Backspace) \<noteq> None"
proof -
  let ?s = "\<lparr>input = ''3'', stored = Some ''5'', operator = Some ''+'', display = ''3'', status = ''5 +''\<rparr>"
  have a: "operator (run cleared [Digit (CHR ''5''), Operator ''+'']) = Some ''+''"
    "stored (run cleared [Digit (CHR ''5''), Operator ''+'']) = Some ''5''"
    by code_simp+
  have b: "operator (step ?s Backspace) = Some ''+''"
    by (simp add: backspace_def)
  from operator_only_with_stored [of "[Digit (CHR ''5''), Operator ''+'']" ?s Backspace] a b
  show ?thesis by simp
qed

section \<open>The shape of the input\<close>












section \<open>Digit entry\<close>







lemma pressPercent_operator: "operator (pressPercent s) = operator s"
  by (simp add: pressPercent_def Let_def split: option.split)

text \<open>
  C8, as amended. Percent never changes the pending operator. When the active operand
  (the input if it is not empty, else the stored operand if there is one) parses to a
  number, Percent replaces it, and the display, by the formatted hundredth of that
  number; with no operand at all it does nothing; when the operand does not parse it
  leaves it as it is and sets the status line to \<^verbatim>\<open>Invalid number\<close>. So 2, 0, Percent
  displays 0.2.
\<close>

theorem percent_divides:
  "operator (step s Percent) = operator s \<and>
   (input s \<noteq> [] \<and> \<not> isNaN (parseFloat (input s)) \<longrightarrow>
      step s Percent =
        s\<lparr>input := formatNumber (num_div (parseFloat (input s)) (Finite False 100)),
          display := formatNumber (num_div (parseFloat (input s)) (Finite False 100))\<rparr>) \<and>
   (input s = [] \<and> stored s = Some st \<and> \<not> isNaN (parseFloat st) \<longrightarrow>
      step s Percent =
        s\<lparr>stored := Some (formatNumber (num_div (parseFloat st) (Finite False 100))),
          display := formatNumber (num_div (parseFloat st) (Finite False 100)),
          status := []\<rparr>) \<and>
   (input s = [] \<and> stored s = None \<longrightarrow> step s Percent = s) \<and>
   (input s \<noteq> [] \<and> isNaN (parseFloat (input s)) \<longrightarrow> step s Percent = s\<lparr>status := ''Invalid number''\<rparr>) \<and>
   (input s = [] \<and> stored s = Some st \<and> isNaN (parseFloat st) \<longrightarrow>
      step s Percent = s\<lparr>status := ''Invalid number''\<rparr>) \<and>
   display (run cleared [Digit (CHR ''2''), Digit (CHR ''0''), Percent]) = ''0.2''"
proof -
  have "display (run cleared [Digit (CHR ''2''), Digit (CHR ''0''), Percent]) = ''0.2''"
    by code_simp
  then show ?thesis
    by (simp add: pressPercent_operator pressPercent_invalid_input pressPercent_invalid_stored)
      (simp add: pressPercent_def Let_def)
qed

theorem percent_divides_witness:
  "step \<lparr>input = ''20'', stored = Some ''5'', operator = Some ''+'', display = ''20'', status = ''5 +''\<rparr> Percent =
     \<lparr>input = ''0.2'', stored = Some ''5'', operator = Some ''+'', display = ''0.2'', status = ''5 +''\<rparr> \<and>
   step \<lparr>input = [], stored = Some ''50'', operator = Some ''+'', display = ''50'', status = ''50 +''\<rparr> Percent =
     \<lparr>input = [], stored = Some ''0.5'', operator = Some ''+'', display = ''0.5'', status = []\<rparr> \<and>
   step cleared Percent = cleared \<and>
   step \<lparr>input = ''-'', stored = None, operator = None, display = ''-'', status = []\<rparr> Percent =
     \<lparr>input = ''-'', stored = None, operator = None, display = ''-'', status = ''Invalid number''\<rparr> \<and>
   step \<lparr>input = [], stored = Some ''-'', operator = Some ''+'', display = ''-'', status = ''- +''\<rparr> Percent =
     \<lparr>input = [], stored = Some ''-'', operator = Some ''+'', display = ''-'', status = ''Invalid number''\<rparr>"
proof -
  let ?a = "\<lparr>input = ''20'', stored = Some ''5'', operator = Some ''+'', display = ''20'', status = ''5 +''\<rparr>"
  let ?b = "\<lparr>input = [], stored = Some ''50'', operator = Some ''+'', display = ''50'', status = ''50 +''\<rparr>"
  let ?p = "\<lparr>input = ''-'', stored = None, operator = None, display = ''-'', status = []\<rparr>"
  let ?q = "\<lparr>input = [], stored = Some ''-'', operator = Some ''+'', display = ''-'', status = ''- +''\<rparr>"
  have n: "\<not> isNaN (parseFloat ''20'')" "\<not> isNaN (parseFloat ''50'')" "isNaN (parseFloat ''-'')"
    by code_simp+
  have f: "formatNumber (num_div (parseFloat ''20'') (Finite False 100)) = ''0.2''"
    "formatNumber (num_div (parseFloat ''50'') (Finite False 100)) = ''0.5''"
    by code_simp+
  show ?thesis
    using percent_divides [of ?a "''5''"] percent_divides [of ?b "''50''"]
      percent_divides [of cleared "''5''"] percent_divides [of ?p "''5''"]
      percent_divides [of ?q "''-''"] n f
    by (simp add: cleared_def)
qed

text \<open>
  C8 as stated fails in the states whose active operand does not parse: after 5, sign
  toggle and Backspace the input is \<^verbatim>\<open>-\<close>, and Percent leaves it so, where dividing
  by 100 and formatting would give \<^verbatim>\<open>NaN\<close>.
\<close>

theorem percent_unparsed_operand:
  "list_all public_event [Digit (CHR ''5''), ToggleSign, Backspace, Percent] \<and>
   input (run cleared [Digit (CHR ''5''), ToggleSign, Backspace]) = ''-'' \<and>
   input (step (run cleared [Digit (CHR ''5''), ToggleSign, Backspace]) Percent) = ''-'' \<and>
   formatNumber (num_div (parseFloat ''-'') (Finite False 100)) = ''NaN''"
  by code_simp

section \<open>Formatting and parsing back\<close>

subsection \<open>Powers and logarithms\<close>

lemma pow2_powi: "pow2 e = 2 powi e"
  by (simp add: pow2_def power_int_def power_inverse field_simps)

lemma pow10_powi: "pow10 e = 10 powi e"
  by (simp add: pow10_def power_int_def power_inverse field_simps)

lemma ndigits_floorlog: "0 \<le> n \<Longrightarrow> 1 < b \<Longrightarrow> ndigits b n = int (floorlog (nat b) (nat n))"
proof (induction b n rule: ndigits.induct)
  case (1 b n)
  show ?case
  proof (cases "0 < n")
    case True
    with 1 have "ndigits b (n div b) = int (floorlog (nat b) (nat (n div b)))"
      by (simp add: pos_imp_zdiv_nonneg_iff)
    moreover from 1 True have "nat (n div b) = nat n div nat b"
      by (simp add: nat_div_distrib)
    ultimately show ?thesis
      using True 1(3) by (subst ndigits.simps, subst compute_floorlog) simp
  next
    case False
    with 1 show ?thesis
      by (subst ndigits.simps, subst compute_floorlog) simp
  qed
qed

lemma ndigits_bounds:
  assumes "0 < n" "1 < b"
  shows "0 < ndigits b n" "b ^ nat (ndigits b n - 1) \<le> n" "n < b ^ nat (ndigits b n)"
proof -
  let ?L = "floorlog (nat b) (nat n)"
  from assms have L: "ndigits b n = int ?L"
    by (simp add: ndigits_floorlog)
  from assms have pos: "0 < ?L"
    by (simp add: floorlog_def)
  from floorlog_bounds [of "nat n" "nat b"] assms
  have "nat b ^ (?L - 1) \<le> nat n" "nat n < nat b ^ ?L"
    by simp_all
  then have "int (nat b ^ (?L - 1)) \<le> int (nat n)" "int (nat n) < int (nat b ^ ?L)"
    by linarith+
  with assms have b: "b ^ (?L - 1) \<le> n" "n < b ^ ?L"
    by simp_all
  from pos L show "0 < ndigits b n" by simp
  from b pos L show "b ^ nat (ndigits b n - 1) \<le> n"
    by (simp add: nat_diff_distrib)
  from b L show "n < b ^ nat (ndigits b n)" by simp
qed

lemma floor_log_bounds:
  assumes "0 < q" "1 < b"
  shows "of_int b powi floor_log b q \<le> q" "q < of_int b powi (floor_log b q + 1)"
proof -
  let ?B = "of_int b :: rat"
  from assms have B: "1 < ?B" by simp
  have "?B powi floor_log b q \<le> q \<and> q < ?B powi (floor_log b q + 1)"
  proof (cases "1 \<le> q")
    case True
    let ?N = "\<lfloor>q\<rfloor>"
    let ?L = "ndigits b ?N"
    from True have N: "0 < ?N" by simp
    note nb = ndigits_bounds [OF N assms(2)]
    from True have fl: "floor_log b q = ?L - 1"
      by (simp add: floor_log_def)
    from nb(2) have "?B ^ nat (?L - 1) \<le> of_int ?N"
      by (metis of_int_le_iff of_int_power)
    also have "\<dots> \<le> q" by simp
    finally have lo: "?B powi (?L - 1) \<le> q"
      using nb(1) by (simp add: power_int_def)
    from nb(3) have "?N + 1 \<le> b ^ nat ?L" by simp
    then have "of_int (?N + 1) \<le> ?B ^ nat ?L"
      by (metis of_int_le_iff of_int_power)
    moreover have "q < of_int (?N + 1)" by linarith
    ultimately have hi: "q < ?B powi ?L"
      using nb(1) by (simp add: power_int_def)
    from lo hi fl show ?thesis by simp
  next
    case False
    let ?c = "\<lceil>1 / q\<rceil>"
    let ?L = "ndigits b (?c - 1)"
    from False assms(1) have r: "1 < 1 / q" by simp
    then have c: "0 < ?c - 1"
      by (simp add: less_ceiling_iff)
    note nb = ndigits_bounds [OF c assms(2)]
    from False have fl: "floor_log b q = - ?L"
      by (simp add: floor_log_def)
    from nb(3) have "?c \<le> b ^ nat ?L" by simp
    then have "of_int ?c \<le> ?B ^ nat ?L"
      by (metis of_int_le_iff of_int_power)
    moreover have "1 / q \<le> of_int ?c" by simp
    ultimately have "1 / q \<le> ?B ^ nat ?L" by linarith
    with assms(1) B have "1 / ?B ^ nat ?L \<le> q"
      by (simp add: field_simps)
    then have lo: "?B powi (- ?L) \<le> q"
      using nb(1) by (simp add: power_int_def power_inverse field_simps)
    from nb(2) have "?B ^ nat (?L - 1) \<le> of_int (?c - 1)"
      by (metis of_int_le_iff of_int_power)
    moreover have "of_int (?c - 1) < 1 / q"
      by (metis ceiling_less_iff less_add_one diff_add_cancel less_ceiling_iff)
    ultimately have "?B ^ nat (?L - 1) < 1 / q" by linarith
    with assms(1) B have "q < 1 / ?B ^ nat (?L - 1)"
      by (simp add: field_simps)
    moreover from nb(1) have "?B powi (- ?L + 1) = 1 / ?B ^ nat (?L - 1)"
      by (simp add: power_int_def power_inverse field_simps nat_diff_distrib)
    ultimately have hi: "q < ?B powi (- ?L + 1)" by simp
    from lo hi fl show ?thesis by simp
  qed
  then show "?B powi floor_log b q \<le> q" "q < ?B powi (floor_log b q + 1)"
    by simp_all
qed

lemma floor_log_unique:
  assumes "0 < q" "1 < b" "of_int b powi e \<le> q" "q < of_int b powi (e + 1)"
  shows "floor_log b q = e"
proof -
  let ?B = "of_int b :: rat"
  let ?f = "floor_log b q"
  from assms have B: "1 < ?B" by simp
  note fb = floor_log_bounds [OF assms(1,2)]
  from fb(1) assms(4) have "?B powi ?f < ?B powi (e + 1)" by linarith
  then have "?f < e + 1"
    using B by (metis linorder_not_less power_int_increasing order_less_imp_le)
  moreover from assms(3) fb(2) have "?B powi e < ?B powi (?f + 1)" by linarith
  then have "e < ?f + 1"
    using B by (metis linorder_not_less power_int_increasing order_less_imp_le)
  ultimately show ?thesis by simp
qed

subsection \<open>Rounding to binary64\<close>

lemma round_half_even_near:
  assumes "\<bar>t - of_int m\<bar> < 1 / 2"
  shows "round_half_even t = m"
proof (cases "of_int m \<le> t")
  case True
  with assms have "\<lfloor>t\<rfloor> = m" by (intro floor_unique) (auto simp: abs_if split: if_splits)
  with assms True show ?thesis
    by (simp add: round_half_even_def Let_def abs_if split: if_splits)
next
  case False
  with assms have f: "\<lfloor>t\<rfloor> = m - 1" by (intro floor_unique) (auto simp: abs_if split: if_splits)
  with assms False show ?thesis
    by (auto simp: round_half_even_def Let_def abs_if split: if_splits)
qed

lemma round_half_even_error: "\<bar>of_int (round_half_even t) - t\<bar> \<le> 1 / 2"
proof -
  have "of_int \<lfloor>t\<rfloor> \<le> t" "t < of_int \<lfloor>t\<rfloor> + 1" by linarith+
  then show ?thesis
    unfolding round_half_even_def Let_def by (auto simp: abs_if) linarith+
qed

lemma abs_scale:
  fixes a v u :: rat
  assumes "0 < u"
  shows "\<bar>a - v / u\<bar> * u = \<bar>a * u - v\<bar>"
proof -
  have "\<bar>a - v / u\<bar> * u = \<bar>a - v / u\<bar> * \<bar>u\<bar>"
    using assms by simp
  also have "\<dots> = \<bar>(a - v / u) * u\<bar>"
    by (simp add: abs_mult)
  also have "(a - v / u) * u = a * u - v"
    using assms by (simp add: left_diff_distrib)
  finally show ?thesis .
qed

lemma roundToDouble_pos:
  assumes "0 < q"
  defines "E \<equiv> max (floor_log 2 q) (- 1022)"
  defines "u \<equiv> 2 powi (E - 52)"
  shows "roundToDouble neg q =
    (if E < 1023 \<or> of_int (round_half_even (q / u)) * u < pow2 1024
     then Finite neg (of_int (round_half_even (q / u)) * u) else Infinity neg)"
proof -
  have "pow2 (E - 52) = u" by (simp add: pow2_powi u_def)
  with assms(1) show ?thesis
    unfolding roundToDouble_def Let_def E_def [symmetric] by (auto simp: not_le)
qed

text \<open>The error of rounding, for a value in the range of the normal numbers.\<close>

lemma roundToDouble_error:
  assumes "2 powi (- 1022) \<le> v" "v < 2 powi 1023"
  shows "\<exists>w. roundToDouble neg v = Finite neg w \<and> \<bar>w - v\<bar> \<le> v / 2 ^ 53"
proof -
  have v: "0 < v"
  proof -
    have "(0::rat) < 2 powi (- 1022)" by simp
    with assms(1) show ?thesis by linarith
  qed
  let ?F = "floor_log 2 v"
  note fb = floor_log_bounds [OF v, of 2, simplified]
  have F: "- 1022 \<le> ?F"
  proof (rule ccontr)
    assume "\<not> - 1022 \<le> ?F"
    then have "?F + 1 \<le> - 1022" by simp
    then have "(2::rat) powi (?F + 1) \<le> 2 powi (- 1022)"
      by (intro power_int_increasing) auto
    with fb(2) assms(1) show False by linarith
  qed
  have F': "?F < 1023"
  proof (rule ccontr)
    assume "\<not> ?F < 1023"
    then have "(2::rat) powi 1023 \<le> 2 powi ?F"
      by (intro power_int_increasing) auto
    with fb(1) assms(2) show False by linarith
  qed
  let ?u = "(2::rat) powi (?F - 52)"
  let ?r = "round_half_even (v / ?u)"
  have u: "0 < ?u" by simp
  from F F' have rd: "roundToDouble neg v = Finite neg (of_int ?r * ?u)"
    using roundToDouble_pos [OF v, of neg] by (simp add: max_def)
  have "\<bar>of_int ?r - v / ?u\<bar> \<le> 1 / 2"
    by (rule round_half_even_error)
  then have "\<bar>of_int ?r - v / ?u\<bar> * ?u \<le> 1 / 2 * ?u"
    using u by (intro mult_right_mono) auto
  moreover have "\<bar>of_int ?r - v / ?u\<bar> * ?u = \<bar>of_int ?r * ?u - v\<bar>"
    using u by (rule abs_scale)
  ultimately have e: "\<bar>of_int ?r * ?u - v\<bar> \<le> ?u / 2" by simp
  have "?u = 2 powi ?F * 2 powi (- 52)"
    by (subst power_int_add [symmetric]) auto
  also have "\<dots> = 2 powi ?F / 2 ^ 52"
    by (simp add: power_int_minus_divide)
  finally have "?u / 2 = 2 powi ?F / 2 ^ 53" by simp
  also have "\<dots> \<le> v / 2 ^ 53"
    using fb(1) by (simp add: divide_right_mono)
  finally have "?u / 2 \<le> v / 2 ^ 53" .
  with e rd show ?thesis by force
qed

subsection \<open>Significant digits\<close>

lemma powi_split: "(10::rat) powi (a + b) = 10 powi a * 10 powi b"
  by (rule power_int_add) simp

lemma powi_split2: "(2::rat) powi (a + b) = 2 powi a * 2 powi b"
  by (rule power_int_add) simp

lemma pow2_shift: "(2::rat) powi e = 2 ^ k * 2 powi (e - int k)"
proof -
  have "(2::rat) powi e = 2 powi (int k + (e - int k))" by simp
  also have "\<dots> = 2 powi int k * 2 powi (e - int k)" by (rule powi_split2)
  finally show ?thesis by simp
qed

lemma pow10_shift: "(10::rat) powi e = 10 ^ k * 10 powi (e - int k)"
proof -
  have "(10::rat) powi e = 10 powi (int k + (e - int k))" by simp
  also have "\<dots> = 10 powi int k * 10 powi (e - int k)" by (rule powi_split)
  finally show ?thesis by simp
qed

lemma sigDigits_range:
  assumes "0 < q" "0 < p" "sigDigits p q = (n, e)"
  shows "10 ^ (p - 1) \<le> n" "n < 10 ^ p"
proof -
  let ?e0 = "floor_log 10 q"
  let ?g = "(10::rat) powi (?e0 - int p + 1)"
  let ?t = "q / ?g"
  let ?n0 = "round_half_up ?t"
  note fb = floor_log_bounds [OF assms(1), of 10, simplified]
  have g: "0 < ?g" by simp
  have e0: "(10::rat) powi ?e0 = 10 ^ (p - 1) * ?g"
  proof -
    have "(10::rat) powi ?e0 = 10 powi (int (p - 1) + (?e0 - int p + 1))"
      using assms(2) by (simp add: of_nat_diff)
    also have "\<dots> = 10 powi int (p - 1) * ?g" by (rule powi_split)
    finally show ?thesis by simp
  qed
  have e1: "(10::rat) powi (?e0 + 1) = 10 ^ p * ?g"
  proof -
    have "(10::rat) powi (?e0 + 1) = 10 powi (int p + (?e0 - int p + 1))" by simp
    also have "\<dots> = 10 powi int p * ?g" by (rule powi_split)
    finally show ?thesis by simp
  qed
  from fb(1) e0 g have t1: "10 ^ (p - 1) \<le> ?t"
    by (simp add: pos_le_divide_eq)
  from fb(2) e1 g have t2: "?t < 10 ^ p"
    by (simp add: pos_divide_less_eq)
  have "(10::int) ^ (p - 1) \<le> \<lfloor>?t + 1 / 2\<rfloor>"
  proof -
    have "rat_of_int (10 ^ (p - 1)) \<le> ?t + 1 / 2" using t1 by simp
    then show ?thesis by (simp only: le_floor_iff)
  qed
  then have n1: "10 ^ (p - 1) \<le> ?n0" by (simp add: round_half_up_def)
  have "\<lfloor>?t + 1 / 2\<rfloor> < 10 ^ p + 1"
  proof -
    have "?t + 1 / 2 < rat_of_int (10 ^ p + 1)" using t2 by simp
    then show ?thesis by (simp only: floor_less_iff)
  qed
  then have n2: "?n0 \<le> 10 ^ p" by (simp add: round_half_up_def)
  have pw: "(10::int) ^ (p - 1) < 10 ^ p"
    using assms(2) by (intro power_strict_increasing) auto
  from assms(3) n1 n2 pw show "10 ^ (p - 1) \<le> n" "n < 10 ^ p"
    by (auto simp: sigDigits_def Let_def pow10_powi split: if_splits)
qed

lemma sigDigits_stable:
  assumes p: "0 < p" and n: "10 ^ (p - 1) \<le> n" "n < 10 ^ p"
    and w: "\<bar>w - of_int n * 10 powi (e - int p + 1)\<bar> < 10 powi (e - int p + 1) / 20"
  shows "sigDigits p w = (n, e)"
proof -
  let ?g = "(10::rat) powi (e - int p + 1)"
  let ?d = "of_int n * ?g"
  have g: "0 < ?g" by simp
  have pe: "(10::rat) powi e = 10 ^ (p - 1) * ?g"
  proof -
    have "(10::rat) powi e = 10 powi (int (p - 1) + (e - int p + 1))"
      using p by (simp add: of_nat_diff)
    also have "\<dots> = 10 powi int (p - 1) * ?g" by (rule powi_split)
    finally show ?thesis by simp
  qed
  have pe1: "(10::rat) powi (e + 1) = 10 ^ p * ?g"
  proof -
    have "(10::rat) powi (e + 1) = 10 powi (int p + (e - int p + 1))" by simp
    also have "\<dots> = 10 powi int p * ?g" by (rule powi_split)
    finally show ?thesis by simp
  qed
  have pm: "(10::rat) powi (e - 1) = 10 powi e / 10"
  proof -
    have "(10::rat) powi (e - 1) = 10 powi (e + (- 1))" by simp
    also have "\<dots> = 10 powi e * 10 powi (- 1)" by (rule powi_split)
    finally show ?thesis by simp
  qed
  have gm: "(10::rat) powi (e - int p) = ?g / 10"
  proof -
    have "(10::rat) powi (e - int p) = 10 powi ((e - int p + 1) + (- 1))" by simp
    also have "\<dots> = ?g * 10 powi (- 1)" by (rule powi_split)
    finally show ?thesis by simp
  qed
  have p1: "(1::rat) \<le> 10 ^ (p - 1)" by simp
  from n have nr: "(10::rat) ^ (p - 1) \<le> of_int n" "rat_of_int n + 1 \<le> 10 ^ p"
  proof -
    from n(1) have "rat_of_int (10 ^ (p - 1)) \<le> of_int n" by (simp only: of_int_le_iff)
    then show "(10::rat) ^ (p - 1) \<le> of_int n" by simp
    from n(2) have "n + 1 \<le> 10 ^ p" by simp
    then have "rat_of_int (n + 1) \<le> rat_of_int (10 ^ p)" by (simp only: of_int_le_iff)
    then show "rat_of_int n + 1 \<le> 10 ^ p" by simp
  qed
  from w have wl: "?d - ?g / 20 < w" and wu: "w < ?d + ?g / 20"
    by (auto simp: abs_if split: if_splits)
  have dl: "10 powi e \<le> ?d"
    unfolding pe using nr(1) g by (simp add: mult_right_mono)
  have du: "?d + ?g \<le> 10 powi (e + 1)"
  proof -
    have "?d + ?g = (of_int n + 1) * ?g" by (simp add: algebra_simps)
    also have "\<dots> \<le> 10 ^ p * ?g" using nr(2) g by (intro mult_right_mono) auto
    finally show ?thesis unfolding pe1 .
  qed
  have gle: "?g \<le> 10 powi e"
  proof -
    have "1 * ?g \<le> 10 ^ (p - 1) * ?g"
      using p1 g by (intro mult_right_mono) auto
    then show ?thesis unfolding pe by simp
  qed
  have wpos: "0 < w"
  proof -
    have "(0::rat) < 10 powi e" by simp
    with gle g have "0 < 10 powi e - ?g / 20" by linarith
    with dl wl show ?thesis by linarith
  qed
  show ?thesis
  proof (cases "10 powi e \<le> w")
    case True
    from wu du g have "w < 10 powi (e + 1)" by linarith
    with True wpos have fl: "floor_log 10 w = e"
      by (intro floor_log_unique) auto
    have "w / ?g + 1 / 2 < of_int n + 1" "of_int n \<le> w / ?g + 1 / 2"
      using wl wu g by (simp_all add: field_simps)
    then have "\<lfloor>w / ?g + 1 / 2\<rfloor> = n"
      by (intro floor_unique) auto
    with fl n(2) show ?thesis
      by (simp add: sigDigits_def Let_def round_half_up_def pow10_powi)
  next
    case False
    then have wlt: "w < 10 powi e" by simp
    with wl have "?d < 10 powi e + ?g / 20" by linarith
    then have "of_int n * ?g < (10 ^ (p - 1) + 1 / 20) * ?g"
      unfolding pe by (simp add: algebra_simps)
    with g have "rat_of_int n < 10 ^ (p - 1) + 1 / 20"
      by (simp only: mult_less_cancel_right_pos)
    then have "rat_of_int n < rat_of_int (10 ^ (p - 1) + 1)" by simp
    then have "n < 10 ^ (p - 1) + 1" by (simp only: of_int_less_iff)
    with n(1) have neq: "n = 10 ^ (p - 1)" by simp
    then have d: "?d = 10 powi e" unfolding pe by simp
    have "10 powi (e - 1) \<le> w"
    proof -
      have "(0::rat) < 10 powi e" by simp
      then have "(10::rat) powi e / 10 \<le> 10 powi e - 10 powi e / 20" by simp
      also have "\<dots> \<le> 10 powi e - ?g / 20" using gle by simp
      also have "\<dots> < w" using wl d by simp
      finally show ?thesis unfolding pm by simp
    qed
    with wlt wpos have fl: "floor_log 10 w = e - 1"
      by (intro floor_log_unique) auto
    have g10: "0 < ?g / 10" using g by simp
    have "10 ^ p * (?g / 10) = 10 powi e"
    proof -
      have "(10::rat) ^ p = 10 * 10 ^ (p - 1)"
        using p by (cases p) simp_all
      then show ?thesis unfolding pe by simp
    qed
    with wl wlt d have "10 ^ p * (?g / 10) - (1 / 2) * (?g / 10) < w" "w < 10 ^ p * (?g / 10)"
      by simp_all
    then have "10 ^ p - 1 / 2 < w / (?g / 10)" "w / (?g / 10) < 10 ^ p"
      using g10 by (simp_all add: pos_less_divide_eq pos_divide_less_eq left_diff_distrib)
    then have "rat_of_int (10 ^ p) \<le> w / (?g / 10) + 1 / 2"
      "w / (?g / 10) + 1 / 2 < rat_of_int (10 ^ p) + 1"
      by simp_all
    then have "\<lfloor>w / (?g / 10) + 1 / 2\<rfloor> = 10 ^ p"
      by (rule floor_unique)
    with fl neq show ?thesis
      by (simp add: sigDigits_def Let_def round_half_up_def pow10_powi gm)
  qed
qed

lemma caseA_numeric:
  assumes "0 < q" "sigDigits 12 q = (n, e)" "- 6 \<le> e" "e \<le> 11"
  shows "\<exists>w. roundToDouble neg (of_int n * 10 powi (e - 11)) = Finite neg w \<and> 0 < w \<and>
    sigDigits 12 w = (n, e)"
proof -
  let ?g = "(10::rat) powi (e - 11)"
  let ?d = "of_int n * ?g"
  from sigDigits_range [OF assms(1) _ assms(2)] have n: "10 ^ 11 \<le> n" "n < 10 ^ 12"
    by simp_all
  then have nr: "(10::rat) ^ 11 \<le> of_int n" "rat_of_int n < 10 ^ 12"
  proof -
    from n(1) have "rat_of_int (10 ^ 11) \<le> of_int n" by (simp only: of_int_le_iff)
    then show "(10::rat) ^ 11 \<le> of_int n" by simp
    from n(2) have "rat_of_int n < rat_of_int (10 ^ 12)" by (simp only: of_int_less_iff)
    then show "rat_of_int n < 10 ^ 12" by simp
  qed
  have g: "0 < ?g" by simp
  have gl: "10 powi (- 17) \<le> ?g"
    using assms(3) by (intro power_int_increasing) auto
  have gu: "?g \<le> 10 powi 0"
    using assms(4) by (intro power_int_increasing) auto
  have "(2::rat) powi (- 1022) \<le> 10 ^ 11 * 10 powi (- 17)"
    by (simp add: power_int_minus_divide)
  also have "\<dots> \<le> 10 ^ 11 * ?g"
    using gl by simp
  also have "\<dots> \<le> ?d"
    using nr(1) g by (intro mult_right_mono) auto
  finally have dl: "2 powi (- 1022) \<le> ?d" .
  have "?d < 10 ^ 12 * ?g"
    using nr(2) g by (simp only: mult_less_cancel_right_pos)
  then have du: "?d < 10 ^ 12 * ?g" .
  also have "\<dots> \<le> 10 ^ 12 * 1"
    using gu by (intro mult_left_mono) auto
  also have "\<dots> < 2 powi 1023" by simp
  finally have du': "?d < 2 powi 1023" .
  from roundToDouble_error [OF dl du', of neg] obtain w where
    w: "roundToDouble neg ?d = Finite neg w" "\<bar>w - ?d\<bar> \<le> ?d / 2 ^ 53"
    by blast
  have "?d / 2 ^ 53 < 10 ^ 12 * ?g / 2 ^ 53"
    using du by (simp add: divide_strict_right_mono)
  also have "\<dots> < ?g / 20"
    using g by simp
  finally have "\<bar>w - ?d\<bar> < ?g / 20"
    using w(2) by linarith
  then have st: "sigDigits 12 w = (n, e)"
    using n by (intro sigDigits_stable) simp_all
  have "0 < ?d" using dl by (smt (verit) zero_less_power_int zero_less_numeral order_less_le_trans)
  moreover have "?d / 2 ^ 53 < ?d" using \<open>0 < ?d\<close> by simp
  ultimately have "0 < w" using w(2) by (simp add: abs_if split: if_splits)
  with w(1) st show ?thesis by blast
qed

subsection \<open>Values near a binary64 number\<close>

lemma roundToDouble_sign:
  "roundToDouble neg v = Finite neg q \<longleftrightarrow> roundToDouble False v = Finite False q"
  by (auto simp: roundToDouble_def Let_def)

lemma double_structure:
  assumes "isDouble q" "0 < q"
  shows "\<exists>M. q = of_int M * 2 powi (max (floor_log 2 q) (- 1022) - 52)"
    "max (floor_log 2 q) (- 1022) < 1023 \<or> q < pow2 1024"
proof -
  let ?E = "max (floor_log 2 q) (- 1022)"
  let ?u = "(2::rat) powi (?E - 52)"
  let ?r = "round_half_even (q / ?u)"
  from assms(1) have "roundToDouble False q = Finite False q"
    by (simp add: isDouble_def)
  then have "(if ?E < 1023 \<or> of_int ?r * ?u < pow2 1024 then Finite False (of_int ?r * ?u)
      else Infinity False) = Finite False q"
    by (simp only: roundToDouble_pos [OF assms(2), of False])
  then have c: "?E < 1023 \<or> of_int ?r * ?u < pow2 1024" and e: "q = of_int ?r * ?u"
    by (simp_all split: if_splits)
  from e show "\<exists>M. q = of_int M * 2 powi (?E - 52)" by (rule exI)
  from c e show "?E < 1023 \<or> q < pow2 1024" by simp
qed

lemma round_near:
  assumes dq: "isDouble q" and q: "0 < q" and v: "0 < v"
    and near: "\<bar>v - q\<bar> \<le> q / (2 * 10 ^ 16)"
  shows "roundToDouble neg v = Finite neg q"
proof -
  let ?F = "floor_log 2 q"
  let ?E = "max ?F (- 1022)"
  let ?u = "(2::rat) powi (?E - 52)"
  let ?Fv = "floor_log 2 v"
  let ?Ev = "max ?Fv (- 1022)"
  note fq = floor_log_bounds [OF q, of 2, simplified]
  note fv = floor_log_bounds [OF v, of 2, simplified]
  from double_structure [OF dq q] obtain M where
    M: "of_int M * ?u = q" and ov: "?E < 1023 \<or> q < pow2 1024"
    by metis
  have u: "0 < ?u" by simp
  have pE: "(2::rat) powi ?E = 2 ^ 52 * ?u"
    using pow2_shift [of ?E 52] by simp
  have pE1: "(2::rat) powi (?E + 1) = 2 ^ 53 * ?u"
    using pow2_shift [of "?E + 1" 53] by simp
  have qE1: "q < 2 powi (?E + 1)"
  proof -
    have "(2::rat) powi (?F + 1) \<le> 2 powi (?E + 1)"
      by (intro power_int_increasing) auto
    with fq(2) show ?thesis by linarith
  qed
  \<comment> \<open>the distance is less than half a unit in the last place\<close>
  have dist: "q / (2 * 10 ^ 16) < 91 / 200 * ?u"
  proof -
    have "q / (2 * 10 ^ 16) < 2 ^ 53 * ?u / (2 * 10 ^ 16)"
      using qE1 unfolding pE1 by (simp add: divide_strict_right_mono)
    also have "\<dots> = (2 ^ 53 / (2 * 10 ^ 16)) * ?u" by simp
    also have "\<dots> \<le> 91 / 200 * ?u"
      using u by (intro mult_right_mono) simp_all
    finally show ?thesis .
  qed
  from near dist have nd: "\<bar>v - q\<bar> < 1 / 2 * ?u" "\<bar>v - q\<bar> < ?u"
    using u by linarith+
  show ?thesis
  proof (cases "?Ev = ?E")
    case True
    have "\<bar>v / ?u - of_int M\<bar> * ?u = \<bar>v - of_int M * ?u\<bar>"
    proof -
      have "\<bar>v / ?u - of_int M\<bar> = \<bar>of_int M - v / ?u\<bar>" by (rule abs_minus_commute)
      also have "\<dots> * ?u = \<bar>of_int M * ?u - v\<bar>" using u by (rule abs_scale)
      also have "\<dots> = \<bar>v - of_int M * ?u\<bar>" by (rule abs_minus_commute)
      finally show ?thesis .
    qed
    with nd(1) have "\<bar>v / ?u - of_int M\<bar> * ?u < 1 / 2 * ?u"
      unfolding M by simp
    with u have "\<bar>v / ?u - of_int M\<bar> < 1 / 2"
      by (simp only: mult_less_cancel_right_pos)
    then have r: "round_half_even (v / ?u) = M"
      by (rule round_half_even_near)
    from roundToDouble_pos [OF v, of neg] True r M ov show ?thesis
      by simp
  next
    case False
    show ?thesis
    proof (cases "?F < ?Fv")
      case up: True
      with False have "?E + 1 \<le> ?Fv" by (simp add: max_def split: if_splits)
      then have "(2::rat) powi (?E + 1) \<le> 2 powi ?Fv"
        by (intro power_int_increasing) auto
      with fv(1) have vE: "2 ^ 53 * ?u \<le> v" unfolding pE1 by linarith
      from qE1 have "of_int M * ?u < 2 ^ 53 * ?u" unfolding pE1 M .
      with u have "rat_of_int M < 2 ^ 53"
        by (simp only: mult_less_cancel_right_pos)
      then have "rat_of_int M < rat_of_int (2 ^ 53)" by simp
      then have "M < 2 ^ 53" by (simp only: of_int_less_iff)
      then have "M + 1 \<le> 2 ^ 53" by simp
      then have "rat_of_int (M + 1) \<le> rat_of_int (2 ^ 53)" by (simp only: of_int_le_iff)
      then have "rat_of_int M + 1 \<le> 2 ^ 53" by simp
      then have "(rat_of_int M + 1) * ?u \<le> 2 ^ 53 * ?u"
        using u by (intro mult_right_mono) auto
      then have "of_int M * ?u + ?u \<le> 2 ^ 53 * ?u" by (simp add: algebra_simps)
      then have "q + ?u \<le> 2 ^ 53 * ?u" unfolding M .
      with vE have "?u \<le> v - q" by linarith
      moreover have "v - q \<le> \<bar>v - q\<bar>" by simp
      ultimately have False using nd(2) by linarith
      then show ?thesis ..
    next
      case nup: False
      with False have lt: "?Fv < ?F" and En: "- 1022 < ?F"
        by (auto simp: max_def split: if_splits)
      then have E: "?E = ?F" by simp
      from lt have "(2::rat) powi (?Fv + 1) \<le> 2 powi ?F"
        by (intro power_int_increasing) auto
      with fv(2) have vF: "v < 2 powi ?F" by linarith
      with fq(1) have vq: "v < q" by linarith
      have "q - v \<le> \<bar>v - q\<bar>" by simp
      with vF nd(2) have "q - 2 powi ?F < ?u" by linarith
      then have "q < 2 ^ 52 * ?u + ?u" using pE E by simp
      then have "of_int M * ?u < (2 ^ 52 + 1) * ?u"
        unfolding M by (simp add: algebra_simps)
      with u have "rat_of_int M < 2 ^ 52 + 1"
        by (simp only: mult_less_cancel_right_pos)
      then have "rat_of_int M < rat_of_int (2 ^ 52 + 1)" by simp
      then have M1: "M < 2 ^ 52 + 1" by (simp only: of_int_less_iff)
      from fq(1) pE E have "2 ^ 52 * ?u \<le> q" by simp
      then have "2 ^ 52 * ?u \<le> of_int M * ?u" unfolding M .
      with u have "2 ^ 52 \<le> rat_of_int M"
        by (simp only: mult_le_cancel_right_pos)
      then have "rat_of_int (2 ^ 52) \<le> rat_of_int M" by simp
      then have "2 ^ 52 \<le> M" by (simp only: of_int_le_iff)
      with M1 have Meq: "M = 2 ^ 52" by simp
      with M have qu: "2 ^ 52 * ?u = q" by simp
      have pF1: "(2::rat) powi (?F - 1) = 2 ^ 51 * ?u"
        using pow2_shift [of "?F - 1" 51] E by simp
      have "2 powi (?F - 1) \<le> v"
      proof -
        have "q - v \<le> \<bar>v - q\<bar>" by simp
        with nd(1) have "q - 1 / 2 * ?u < v" by linarith
        moreover have "2 ^ 51 * ?u \<le> 2 ^ 52 * ?u - 1 / 2 * ?u" using u by simp
        ultimately show ?thesis unfolding pF1 using qu by linarith
      qed
      moreover from vF have "v < 2 powi (?F - 1 + 1)" by simp
      ultimately have Fv: "?Fv = ?F - 1"
        using v by (intro floor_log_unique) auto
      with En have Ev: "?Ev = ?F - 1" by simp
      let ?h = "(2::rat) powi (?F - 1 - 52)"
      have h: "?h = ?u / 2"
        using pow2_shift [of "?F - 52" 1] E by simp
      have hp: "0 < ?h" by simp
      have "\<bar>v / ?h - of_int (2 ^ 53)\<bar> * ?h = \<bar>v - of_int (2 ^ 53) * ?h\<bar>"
      proof -
        have "\<bar>v / ?h - of_int (2 ^ 53)\<bar> = \<bar>of_int (2 ^ 53) - v / ?h\<bar>" by (rule abs_minus_commute)
        also have "\<dots> * ?h = \<bar>of_int (2 ^ 53) * ?h - v\<bar>" using hp by (rule abs_scale)
        also have "\<dots> = \<bar>v - of_int (2 ^ 53) * ?h\<bar>" by (rule abs_minus_commute)
        finally show ?thesis .
      qed
      moreover have qh: "of_int (2 ^ 53) * ?h = q"
        unfolding h using qu by simp
      moreover have "q / (2 * 10 ^ 16) < 1 / 2 * ?h"
      proof -
        have "2 ^ 52 * ?u / (2 * 10 ^ 16) < 1 / 2 * (?u / 2)" using u by simp
        then show ?thesis unfolding h qu .
      qed
      ultimately have "\<bar>v / ?h - of_int (2 ^ 53)\<bar> * ?h < 1 / 2 * ?h"
        using near by linarith
      with hp have "\<bar>v / ?h - of_int (2 ^ 53)\<bar> < 1 / 2"
        by (simp only: mult_less_cancel_right_pos)
      then have r: "round_half_even (v / ?h) = 2 ^ 53"
        by (rule round_half_even_near)
      have F1023: "?F - 1 < 1023"
      proof (rule ccontr)
        assume "\<not> ?F - 1 < 1023"
        then have "1024 \<le> ?F" by simp
        then have "(2::rat) powi 1024 \<le> 2 powi ?F"
          by (intro power_int_increasing) auto
        with fq(1) have "pow2 1024 \<le> q" unfolding pow2_powi by linarith
        with ov E \<open>1024 \<le> ?F\<close> show False by simp
      qed
      from roundToDouble_pos [OF v, of neg] Ev r F1023 qh
      show ?thesis by simp
    qed
  qed
qed

subsection \<open>The shortest digits\<close>

lemma scaled_range:
  assumes "0 < q" "0 < k"
  defines "t \<equiv> q / 10 powi (floor_log 10 q - int k + 1)"
  shows "10 ^ (k - 1) \<le> t" "t < 10 ^ k"
proof -
  let ?e0 = "floor_log 10 q"
  let ?g = "(10::rat) powi (?e0 - int k + 1)"
  note fb = floor_log_bounds [OF assms(1), of 10, simplified]
  have g: "0 < ?g" by simp
  have e0: "(10::rat) powi ?e0 = 10 ^ (k - 1) * ?g"
    using pow10_shift [of ?e0 "k - 1"] assms(2) by (simp add: of_nat_diff algebra_simps)
  have e1: "(10::rat) powi (?e0 + 1) = 10 ^ k * ?g"
    using pow10_shift [of "?e0 + 1" k] by (simp add: algebra_simps)
  from fb(1) e0 g show "10 ^ (k - 1) \<le> t"
    by (simp add: t_def pos_le_divide_eq)
  from fb(2) e1 g show "t < 10 ^ k"
    by (simp add: t_def pos_divide_less_eq)
qed

lemma floor_ceiling_range:
  fixes t :: rat
  assumes "10 ^ j \<le> t" "t < 10 ^ k"
  shows "10 ^ j \<le> \<lfloor>t\<rfloor>" "\<lfloor>t\<rfloor> < 10 ^ k" "10 ^ j \<le> \<lceil>t\<rceil>" "\<lceil>t\<rceil> \<le> 10 ^ k"
proof -
  from assms(1) have "rat_of_int (10 ^ j) \<le> t" by simp
  then show a: "10 ^ j \<le> \<lfloor>t\<rfloor>" by (simp only: le_floor_iff)
  from assms(2) have "t < rat_of_int (10 ^ k)" by simp
  then show "\<lfloor>t\<rfloor> < 10 ^ k" by (simp only: floor_less_iff)
  have "\<lfloor>t\<rfloor> \<le> \<lceil>t\<rceil>" by (rule floor_le_ceiling)
  with a show "10 ^ j \<le> \<lceil>t\<rceil>" by linarith
  from assms(2) have "t \<le> rat_of_int (10 ^ k)" by simp
  then show "\<lceil>t\<rceil> \<le> 10 ^ k" by (simp only: ceiling_le_iff)
qed

lemma pick_Some:
  "(if A \<and> B then (if x then Some lo else if y then Some hi else if z then Some lo else Some hi)
    else if A then Some lo else if B then Some hi else None) = Some c \<Longrightarrow>
   (c = lo \<and> A) \<or> (c = hi \<and> B)"
  by (auto split: if_splits)

lemma pick_None:
  "(if A \<and> B then (if x then Some lo else if y then Some hi else if z then Some lo else Some hi)
    else if A then Some lo else if B then Some hi else None) = None \<Longrightarrow> \<not> A \<and> \<not> B"
  by (auto split: if_splits)

lemma shortestAt_Some:
  assumes "shortestAt q k = Some r"
  defines "e \<equiv> floor_log 10 q - int k + 1"
  shows "\<exists>c. (c = \<lfloor>q / 10 powi e\<rfloor> \<or> c = \<lceil>q / 10 powi e\<rceil>) \<and> roundTrips q c e \<and>
    r = (if c = 10 ^ k then (e + int k + 1, k, 10 ^ (k - 1)) else (e + int k, k, c))"
proof -
  let ?t = "q / 10 powi e"
  let ?A = "roundTrips q \<lfloor>?t\<rfloor> e"
  let ?B = "roundTrips q \<lceil>?t\<rceil> e"
  let ?C = "(if ?A \<and> ?B then
      (if ?t - of_int \<lfloor>?t\<rfloor> < of_int \<lceil>?t\<rceil> - ?t then Some \<lfloor>?t\<rfloor>
       else if of_int \<lceil>?t\<rceil> - ?t < ?t - of_int \<lfloor>?t\<rfloor> then Some \<lceil>?t\<rceil>
       else if even \<lfloor>?t\<rfloor> then Some \<lfloor>?t\<rfloor> else Some \<lceil>?t\<rceil>)
    else if ?A then Some \<lfloor>?t\<rfloor> else if ?B then Some \<lceil>?t\<rceil> else None)"
  have d: "shortestAt q k = (case ?C of None \<Rightarrow> None
      | Some s \<Rightarrow> if s = 10 ^ k then Some (e + int k + 1, k, 10 ^ (k - 1)) else Some (e + int k, k, s))"
    unfolding shortestAt_def Let_def pow10_powi e_def ..
  with assms(1) obtain c where c: "?C = Some c"
    and r: "r = (if c = 10 ^ k then (e + int k + 1, k, 10 ^ (k - 1)) else (e + int k, k, c))"
    by (cases ?C) (simp_all split: if_splits)
  from pick_Some [OF c] r show ?thesis by blast
qed

lemma shortestAt_None:
  assumes "shortestAt q k = None"
  defines "e \<equiv> floor_log 10 q - int k + 1"
  shows "\<not> roundTrips q \<lfloor>q / 10 powi e\<rfloor> e" "\<not> roundTrips q \<lceil>q / 10 powi e\<rceil> e"
proof -
  let ?t = "q / 10 powi e"
  let ?A = "roundTrips q \<lfloor>?t\<rfloor> e"
  let ?B = "roundTrips q \<lceil>?t\<rceil> e"
  let ?C = "(if ?A \<and> ?B then
      (if ?t - of_int \<lfloor>?t\<rfloor> < of_int \<lceil>?t\<rceil> - ?t then Some \<lfloor>?t\<rfloor>
       else if of_int \<lceil>?t\<rceil> - ?t < ?t - of_int \<lfloor>?t\<rfloor> then Some \<lceil>?t\<rceil>
       else if even \<lfloor>?t\<rfloor> then Some \<lfloor>?t\<rfloor> else Some \<lceil>?t\<rceil>)
    else if ?A then Some \<lfloor>?t\<rfloor> else if ?B then Some \<lceil>?t\<rceil> else None)"
  have d: "shortestAt q k = (case ?C of None \<Rightarrow> None
      | Some s \<Rightarrow> if s = 10 ^ k then Some (e + int k + 1, k, 10 ^ (k - 1)) else Some (e + int k, k, s))"
    unfolding shortestAt_def Let_def pow10_powi e_def ..
  with assms(1) have "?C = None"
    by (cases ?C) (simp_all split: if_splits)
  from pick_None [OF this] show "\<not> ?A" "\<not> ?B" by simp_all
qed

lemma shortestAt_props:
  assumes "0 < q" "0 < k" "shortestAt q k = Some (n, k', s)"
  shows "k' = k" "10 ^ (k - 1) \<le> s" "s < 10 ^ k"
    "roundToDouble False (of_int s * 10 powi (n - int k)) = Finite False q"
proof -
  let ?e = "floor_log 10 q - int k + 1"
  let ?t = "q / 10 powi ?e"
  let ?lo = "\<lfloor>?t\<rfloor>"
  let ?hi = "\<lceil>?t\<rceil>"
  note tr = scaled_range [OF assms(1,2)]
  note fc = floor_ceiling_range [OF tr]
  from shortestAt_Some [OF assms(3)] obtain c where c: "c = ?lo \<or> c = ?hi" "roundTrips q c ?e"
    and r: "(n, k', s) = (if c = 10 ^ k then (?e + int k + 1, k, 10 ^ (k - 1)) else (?e + int k, k, c))"
    by blast
  from r show "k' = k" by (simp split: if_splits)
  have pw: "(10::int) ^ (k - 1) < 10 ^ k"
    using assms(2) by (intro power_strict_increasing) auto
  from c(1) fc have cr: "10 ^ (k - 1) \<le> c" "c \<le> 10 ^ k" by auto
  with r pw show "10 ^ (k - 1) \<le> s" "s < 10 ^ k"
    by (auto split: if_splits)
  show "roundToDouble False (of_int s * 10 powi (n - int k)) = Finite False q"
  proof (cases "c = 10 ^ k")
    case True
    with r have s: "s = 10 ^ (k - 1)" and n: "n - int k = ?e + 1" by simp_all
    have "(10::rat) ^ k = 10 * 10 ^ (k - 1)"
      using assms(2) by (cases k) simp_all
    moreover have "(10::rat) powi (?e + 1) = 10 powi ?e * 10"
      by (rule power_int_add_1) simp
    ultimately have "rat_of_int s * 10 powi (n - int k) = of_int c * 10 powi ?e"
      unfolding s n True by simp
    with c(2) show ?thesis unfolding roundTrips_def pow10_powi by simp
  next
    case False
    with r have sc: "s = c" and ne: "n - int k = ?e" by simp_all
    from c(2) show ?thesis unfolding roundTrips_def pow10_powi sc ne .
  qed
qed

lemma shortestAt_17:
  assumes "isDouble q" "0 < q"
  shows "shortestAt q 17 \<noteq> None"
proof -
  let ?e = "floor_log 10 q - 16"
  let ?g = "(10::rat) powi ?e"
  let ?t = "q / ?g"
  let ?lo = "\<lfloor>?t\<rfloor>"
  let ?hi = "\<lceil>?t\<rceil>"
  note tr = scaled_range [OF assms(2), of 17, simplified]
  note fb = floor_log_bounds [OF assms(2), of 10, simplified]
  have g: "0 < ?g" by simp
  have "(10::rat) powi floor_log 10 q = 10 ^ 16 * ?g"
    using pow10_shift [of "floor_log 10 q" 16] by simp
  with fb(1) have gq: "?g / 2 \<le> q / (2 * 10 ^ 16)" by simp
  have near: "roundTrips q c ?e" if "0 < c" "\<bar>of_int c - ?t\<bar> \<le> 1 / 2" for c
  proof -
    from that(2) have "\<bar>of_int c - ?t\<bar> * ?g \<le> 1 / 2 * ?g"
      using g by (intro mult_right_mono) auto
    then have "\<bar>of_int c * ?g - q\<bar> \<le> 1 / 2 * ?g"
      unfolding abs_scale [OF g] .
    then have "\<bar>of_int c * ?g - q\<bar> \<le> ?g / 2" by simp
    with gq have "\<bar>of_int c * ?g - q\<bar> \<le> q / (2 * 10 ^ 16)" by linarith
    moreover from that(1) g have "0 < of_int c * ?g" by simp
    ultimately have "roundToDouble False (of_int c * ?g) = Finite False q"
      using assms by (intro round_near) auto
    then show ?thesis by (simp add: roundTrips_def pow10_powi)
  qed
  have lo: "0 < ?lo"
  proof -
    from tr(1) have "rat_of_int 1 \<le> ?t" by linarith
    then have "1 \<le> ?lo" by (simp only: le_floor_iff)
    then show ?thesis by simp
  qed
  have hi: "0 < ?hi" using lo floor_le_ceiling [of ?t] by linarith
  have "roundTrips q ?lo ?e \<or> roundTrips q ?hi ?e"
  proof (cases "?t - of_int ?lo \<le> 1 / 2")
    case True
    have "of_int ?lo \<le> ?t" by simp
    with True have "\<bar>of_int ?lo - ?t\<bar> \<le> 1 / 2" by simp
    with near [OF lo] show ?thesis by simp
  next
    case False
    have "?t \<le> of_int ?hi" by simp
    moreover have "of_int ?hi < ?t + 1" by linarith
    moreover have "?hi \<le> ?lo + 1"
      by (simp add: ceiling_altdef)
    then have "rat_of_int ?hi \<le> rat_of_int (?lo + 1)"
      by (simp only: of_int_le_iff)
    then have "of_int ?hi \<le> rat_of_int ?lo + 1" by simp
    ultimately have "\<bar>of_int ?hi - ?t\<bar> \<le> 1 / 2" using False by linarith
    with near [OF hi] show ?thesis by simp
  qed
  moreover have "floor_log 10 q - int 17 + 1 = ?e" by simp
  ultimately show ?thesis
    using shortestAt_None [of q 17] by metis
qed

lemma firstSome_Some: "firstSome f xs = Some r \<Longrightarrow> \<exists>x \<in> set xs. f x = Some r"
  by (induction xs) (auto split: option.splits)

lemma firstSome_None: "firstSome f xs = None \<Longrightarrow> x \<in> set xs \<Longrightarrow> f x = None"
  by (induction xs) (auto split: option.splits)

lemma shortest_props:
  assumes "isDouble q" "0 < q" "shortest q = (n, k, s)"
  shows "0 < k" "10 ^ (k - 1) \<le> s" "s < 10 ^ k"
    "roundToDouble False (of_int s * 10 powi (n - int k)) = Finite False q"
proof -
  have "firstSome (shortestAt q) [1 ..< 18] \<noteq> None"
  proof
    assume "firstSome (shortestAt q) [1 ..< 18] = None"
    then have "shortestAt q 17 = None"
      by (rule firstSome_None) simp
    with shortestAt_17 [OF assms(1,2)] show False by simp
  qed
  with assms(3) have "firstSome (shortestAt q) [1 ..< 18] = Some (n, k, s)"
    by (auto simp: shortest_def split: option.splits)
  then obtain j where j: "j \<in> set [1 ..< 18]" "shortestAt q j = Some (n, k, s)"
    by (blast dest: firstSome_Some)
  from j(1) have jp: "0 < j" by simp
  note sp = shortestAt_props [OF assms(2) jp j(2)]
  from sp(1) jp show "0 < k" by simp
  from sp show "10 ^ (k - 1) \<le> s" "s < 10 ^ k"
    "roundToDouble False (of_int s * 10 powi (n - int k)) = Finite False q"
    by simp_all
qed

subsection \<open>Digit strings\<close>

lemma digit_cases:
  assumes "0 \<le> d" "d < 10"
  shows "d = 0 \<or> d = 1 \<or> d = 2 \<or> d = 3 \<or> d = 4 \<or> d = 5 \<or> d = 6 \<or> d = 7 \<or> d = 8 \<or> d = (9::int)"
  using assms by arith

lemma digitChar_isDigit: "0 \<le> d \<Longrightarrow> d < 10 \<Longrightarrow> isDigit (digitChar d)"
  using digit_cases [of d] by (auto simp: digitChar_def isDigit_def)

lemma digitValue_digitChar: "0 \<le> d \<Longrightarrow> d < 10 \<Longrightarrow> digitValue (digitChar d) = d"
  using digit_cases [of d] by (auto simp: digitChar_def digitValue_def)

lemma digitChar_zero: "0 < d \<Longrightarrow> d < 10 \<Longrightarrow> digitChar d \<noteq> CHR ''0''"
  using digit_cases [of d] by (auto simp: digitChar_def)

lemma digits_isDigit: "0 \<le> n \<Longrightarrow> list_all isDigit (digits n)"
proof (induction n rule: digits.induct)
  case (1 n)
  show ?case
  proof (cases "n < 10")
    case True
    with 1(2) show ?thesis
      by (subst digits.simps) (simp add: digitChar_isDigit)
  next
    case False
    with 1 have "list_all isDigit (digits (n div 10))"
      by (simp add: pos_imp_zdiv_nonneg_iff)
    with False show ?thesis
      by (subst digits.simps) (simp add: digitChar_isDigit)
  qed
qed

lemma decimalValue_snoc: "decimalValue (xs @ [c]) = 10 * decimalValue xs + digitValue c"
  by (simp add: decimalValue_def)

lemma decimalValue_Nil: "decimalValue [] = 0"
  by (simp add: decimalValue_def)

lemma decimalValue_append:
  "decimalValue (xs @ ys) = decimalValue xs * 10 ^ length ys + decimalValue ys"
proof (induction ys rule: rev_induct)
  case Nil
  show ?case by (simp add: decimalValue_Nil)
next
  case (snoc y ys)
  have "decimalValue (xs @ ys @ [y]) = 10 * decimalValue (xs @ ys) + digitValue y"
    using decimalValue_snoc [of "xs @ ys" y] by simp
  with snoc show ?case
    by (simp add: decimalValue_snoc algebra_simps)
qed

lemma decimalValue_zeros: "decimalValue (replicate j (CHR ''0'')) = 0"
proof (induction j)
  case 0
  show ?case by (simp add: decimalValue_Nil)
next
  case (Suc j)
  have "replicate (Suc j) (CHR ''0'') = replicate j (CHR ''0'') @ ''0''"
    by (simp add: replicate_append_same)
  with Suc decimalValue_snoc [of "replicate j (CHR ''0'')" "CHR ''0''"] show ?case
    by (simp add: digitValue_def)
qed

lemma decimalValue_digits: "0 \<le> n \<Longrightarrow> decimalValue (digits n) = n"
proof (induction n rule: digits.induct)
  case (1 n)
  show ?case
  proof (cases "n < 10")
    case True
    with 1(2) show ?thesis
      by (subst digits.simps) (simp add: decimalValue_def digitValue_digitChar)
  next
    case False
    with 1 have "decimalValue (digits (n div 10)) = n div 10"
      by (simp add: pos_imp_zdiv_nonneg_iff)
    with False show ?thesis
      by (subst digits.simps) (simp add: decimalValue_snoc digitValue_digitChar)
  qed
qed

lemma length_digits:
  "10 ^ p \<le> n \<Longrightarrow> n < 10 ^ Suc p \<Longrightarrow> length (digits n) = Suc p"
proof (induction p arbitrary: n)
  case 0
  then show ?case by (subst digits.simps) simp
next
  case (Suc p)
  from Suc.prems have "10 ^ p \<le> n div 10" "n div 10 < 10 ^ Suc p"
    by simp_all
  with Suc.IH have "length (digits (n div 10)) = Suc p" by simp
  moreover have "(10::int) \<le> 10 ^ Suc p" by simp
  with Suc.prems(1) have "\<not> n < 10" by linarith
  ultimately show ?case by (subst digits.simps) simp
qed

lemma digits_leading:
  "0 < n \<Longrightarrow> \<exists>c cs. digits n = c # cs \<and> c \<noteq> CHR ''0'' \<and> isDigit c"
proof (induction n rule: digits.induct)
  case (1 n)
  show ?case
  proof (cases "n < 10")
    case True
    with 1(2) show ?thesis
      by (subst digits.simps) (simp add: digitChar_zero digitChar_isDigit)
  next
    case False
    with 1 obtain c cs where "digits (n div 10) = c # cs" "c \<noteq> CHR ''0''" "isDigit c"
      by (auto simp: pos_imp_zdiv_pos_iff)
    with False show ?thesis
      by (subst digits.simps) simp
  qed
qed

lemma takeWhile_digits:
  assumes "list_all isDigit ds" "take 1 rest = [] \<or> \<not> isDigit (hd rest)"
  shows "takeWhile isDigit (ds @ rest) = ds" "dropWhile isDigit (ds @ rest) = rest"
proof -
  from assms(2) have r: "takeWhile isDigit rest = []" "dropWhile isDigit rest = rest"
    by (cases rest; simp)+
  from assms(1) have "\<And>x. x \<in> set ds \<Longrightarrow> isDigit x"
    by (simp add: list_all_iff)
  then show "takeWhile isDigit (ds @ rest) = ds" "dropWhile isDigit (ds @ rest) = rest"
    using r by (simp_all add: takeWhile_append2 dropWhile_append2)
qed

subsection \<open>Reading literals\<close>

lemma isDigit_chars:
  assumes "isDigit c"
  shows "\<not> isWhiteSpace c" "c \<noteq> CHR ''-''" "c \<noteq> CHR ''+''" "c \<noteq> CHR ''.''" "c \<noteq> CHR ''e''"
    "c \<noteq> CHR ''E''" "c \<noteq> CHR ''I''"
  using assms by (auto simp: isDigit_def isWhiteSpace_def)

lemma not_digit_chars:
  "\<not> isDigit (CHR ''.'')" "\<not> isDigit (CHR ''e'')" "\<not> isDigit (CHR ''-'')" "\<not> isDigit (CHR ''+'')"
  by (simp_all add: isDigit_def)

lemma takeWhile_all: "list_all P xs \<Longrightarrow> takeWhile P xs = xs"
  by (induction xs) simp_all

lemma exponentPart_cases:
  assumes "list_all isDigit xd"
  shows "exponentPart [] = 0" "exponentPart (''e+'' @ xd) = decimalValue xd"
    "exponentPart (''e-'' @ xd) = - decimalValue xd"
  using assms by (simp_all add: exponentPart_def takeWhile_all)

text \<open>Reading a literal that starts with a digit, after an optional minus sign.\<close>

lemma parseFloat_unsigned:
  assumes "isDigit d"
  shows "parseFloat (d # rest) =
    (let u = d # rest;
         ip = takeWhile isDigit u;
         r1 = dropWhile isDigit u;
         hasDot = (take 1 r1 = ''.'');
         fp = (if hasDot then takeWhile isDigit (drop 1 r1) else []);
         r2 = (if hasDot then dropWhile isDigit (drop 1 r1) else r1)
     in roundToDouble False
          (of_int (decimalValue (ip @ fp)) * pow10 (exponentPart r2 - int (length fp))))"
  using assms isDigit_chars [OF assms]
  by (simp add: parseFloat_def Let_def)

lemma parseFloat_signed:
  assumes "isDigit d"
  shows "parseFloat (CHR ''-'' # d # rest) =
    (let u = d # rest;
         ip = takeWhile isDigit u;
         r1 = dropWhile isDigit u;
         hasDot = (take 1 r1 = ''.'');
         fp = (if hasDot then takeWhile isDigit (drop 1 r1) else []);
         r2 = (if hasDot then dropWhile isDigit (drop 1 r1) else r1)
     in roundToDouble True
          (of_int (decimalValue (ip @ fp)) * pow10 (exponentPart r2 - int (length fp))))"
  using assms isDigit_chars [OF assms]
  by (simp add: parseFloat_def Let_def isWhiteSpace_def)

lemma parseFloat_canonical:
  assumes sg: "pre = [] \<or> pre = ''-''"
    and ip: "ip \<noteq> []" "list_all isDigit ip"
    and fp: "list_all isDigit fp"
    and dot: "dot = [] \<and> fp = [] \<or> dot = ''.'' @ fp"
    and xd: "list_all isDigit xd"
    and ex: "ex = [] \<and> X = 0 \<or> ex = ''e+'' @ xd \<and> X = decimalValue xd \<or>
             ex = ''e-'' @ xd \<and> X = - decimalValue xd"
  shows "parseFloat (pre @ ip @ dot @ ex) =
    roundToDouble (pre = ''-'') (of_int (decimalValue (ip @ fp)) * 10 powi (X - int (length fp)))"
proof -
  from ip obtain d ip' where d: "ip = d # ip'" "isDigit d"
    by (cases ip) auto
  have exh: "take 1 ex = [] \<or> \<not> isDigit (hd ex)" "take 1 ex \<noteq> ''.''"
    using ex by (auto simp: not_digit_chars)
  have exv: "exponentPart ex = X"
    using ex exponentPart_cases [OF xd] by auto
  have tl: "take 1 (dot @ ex) = [] \<or> \<not> isDigit (hd (dot @ ex))"
    using dot exh(1) by (auto simp: not_digit_chars)
  note tw = takeWhile_digits [OF ip(2) tl]
  have body: "(let u = ip @ dot @ ex;
         ip = takeWhile isDigit u;
         r1 = dropWhile isDigit u;
         hasDot = (take 1 r1 = ''.'');
         fp = (if hasDot then takeWhile isDigit (drop 1 r1) else []);
         r2 = (if hasDot then dropWhile isDigit (drop 1 r1) else r1)
     in roundToDouble neg
          (of_int (decimalValue (ip @ fp)) * pow10 (exponentPart r2 - int (length fp)))) =
    roundToDouble neg (of_int (decimalValue (ip @ fp)) * 10 powi (X - int (length fp)))" for neg
  proof (cases "dot = []")
    case True
    with dot have "fp = []" by auto
    with True tw exh(2) exv show ?thesis
      by (simp add: Let_def pow10_powi)
  next
    case False
    with dot have dt: "dot = ''.'' @ fp" by auto
    note tf = takeWhile_digits [OF fp exh(1)]
    from dt tw tf exv show ?thesis
      by (simp add: Let_def pow10_powi)
  qed
  from sg show ?thesis
  proof
    assume "pre = []"
    with parseFloat_unsigned [OF d(2), of "ip' @ dot @ ex"] body [of False] d(1) show ?thesis
      by simp
  next
    assume "pre = ''-''"
    with parseFloat_signed [OF d(2), of "ip' @ dot @ ex"] body [of True] d(1) show ?thesis
      by simp
  qed
qed

subsection \<open>Trailing zeros\<close>

lemma take1_in_set: "take 1 xs = [c] \<Longrightarrow> c \<in> set xs"
  by (cases xs) auto

lemma trim_no_point:
  assumes "CHR ''.'' \<notin> set str"
  shows "trimPointZeros (trimFractionZeros str) = str"
proof -
  have a: "take 1 (dropWhile P (dropWhile Q (rev str))) \<noteq> ''.''" for P Q
  proof
    assume "take 1 (dropWhile P (dropWhile Q (rev str))) = ''.''"
    then have "CHR ''.'' \<in> set (dropWhile P (dropWhile Q (rev str)))"
      by (rule take1_in_set)
    then have "CHR ''.'' \<in> set (rev str)"
      by (blast dest: set_dropWhileD)
    with assms show False by simp
  qed
  have b: "take 1 (dropWhile Q (rev str)) \<noteq> ''.''" for Q
  proof
    assume "take 1 (dropWhile Q (rev str)) = ''.''"
    then have "CHR ''.'' \<in> set (dropWhile Q (rev str))"
      by (rule take1_in_set)
    then have "CHR ''.'' \<in> set (rev str)"
      by (blast dest: set_dropWhileD)
    with assms show False by simp
  qed
  from a have "trimFractionZeros str = str"
    by (simp add: trimFractionZeros_def Let_def)
  with b show ?thesis
    by (simp add: trimPointZeros_def Let_def)
qed

lemma takeWhile_zeros: "takeWhile (\<lambda>c. c = x) xs = replicate (length (takeWhile (\<lambda>c. c = x) xs)) x"
  by (induction xs) simp_all

lemma split_trailing_zeros:
  assumes "list_all isDigit fp"
  obtains fp' j where "fp = fp' @ replicate j (CHR ''0'')" "list_all isDigit fp'"
    "takeWhile (\<lambda>c. c = CHR ''0'') (rev fp' @ rest) = (if fp' = [] then takeWhile (\<lambda>c. c = CHR ''0'') rest else [])"
    "takeWhile (\<lambda>c. c = CHR ''0'') (rev fp) = replicate j (CHR ''0'')"
    "dropWhile (\<lambda>c. c = CHR ''0'') (rev fp) = rev fp'"
proof -
  let ?Z = "\<lambda>c. c = CHR ''0''"
  let ?zs = "takeWhile ?Z (rev fp)"
  let ?r = "dropWhile ?Z (rev fp)"
  let ?j = "length ?zs"
  have zs: "?zs = replicate ?j (CHR ''0'')" by (rule takeWhile_zeros)
  have "rev fp = ?zs @ ?r" by simp
  then have "fp = rev ?r @ rev ?zs" by (metis rev_append rev_rev_ident)
  with zs have 1: "fp = rev ?r @ replicate ?j (CHR ''0'')"
    by (metis rev_replicate)
  from assms have "list_all isDigit (rev fp)" by (simp add: list_all_iff)
  then have "list_all isDigit ?r"
    by (auto simp: list_all_iff dest: set_dropWhileD)
  then have 2: "list_all isDigit (rev ?r)" by (simp add: list_all_iff)
  have 3: "takeWhile ?Z (rev (rev ?r) @ rest) = (if rev ?r = [] then takeWhile ?Z rest else [])"
  proof (cases "?r")
    case Nil
    show ?thesis unfolding Nil by simp
  next
    case (Cons a as)
    with hd_dropWhile [of ?Z "rev fp"] have "a \<noteq> CHR ''0''" by auto
    then show ?thesis unfolding Cons by simp
  qed
  from that [OF 1 2 3 zs] show thesis by simp
qed

lemma trim_fraction:
  assumes "list_all isDigit fp" "fp \<noteq> []"
  obtains fp' j where "fp = fp' @ replicate j (CHR ''0'')" "list_all isDigit fp'"
    "trimPointZeros (trimFractionZeros (pre @ ''.'' @ fp)) = (if fp' = [] then pre else pre @ ''.'' @ fp')"
proof -
  let ?Z = "\<lambda>c. c = CHR ''0''"
  let ?str = "pre @ ''.'' @ fp"
  from split_trailing_zeros [OF assms(1), of "''.'' @ rev pre"] obtain fp' j where
    s: "fp = fp' @ replicate j (CHR ''0'')" "list_all isDigit fp'"
      "takeWhile ?Z (rev fp' @ ''.'' @ rev pre) = (if fp' = [] then takeWhile ?Z (''.'' @ rev pre) else [])"
      "takeWhile ?Z (rev fp) = replicate j (CHR ''0'')"
      "dropWhile ?Z (rev fp) = rev fp'"
    by blast
  have r: "rev ?str = rev fp @ ''.'' @ rev pre" by simp
  have z: "\<not> ?Z (CHR ''.'')" by simp
  have tz: "takeWhile ?Z (rev ?str) = replicate j (CHR ''0'')"
  proof -
    have "takeWhile ?Z (rev ?str) = takeWhile ?Z (rev fp @ CHR ''.'' # rev pre)" by simp
    also have "\<dots> = takeWhile ?Z (rev fp)"
      using z by (rule takeWhile_tail)
    finally show ?thesis using s(4) by simp
  qed
  have dz: "dropWhile ?Z (rev ?str) = rev fp' @ ''.'' @ rev pre"
  proof -
    have "dropWhile ?Z (rev ?str) = dropWhile ?Z (rev fp @ CHR ''.'' # rev pre)" by simp
    also have "\<dots> = dropWhile ?Z (rev fp) @ CHR ''.'' # rev pre"
      using z by (rule dropWhile_append3)
    finally show ?thesis using s(5) by simp
  qed
  from s(2) have rd: "list_all isDigit (rev fp')" by (simp add: list_all_iff)
  have dd: "dropWhile isDigit (rev fp' @ ''.'' @ rev pre) = ''.'' @ rev pre"
    using takeWhile_digits(2) [OF rd, of "''.'' @ rev pre"] by (simp add: not_digit_chars)
  have hd1: "take 1 (rev fp' @ ''.'' @ rev pre) = ''.'' \<longleftrightarrow> fp' = []"
  proof (cases "rev fp'")
    case Nil
    then show ?thesis by simp
  next
    case (Cons a as)
    with rd have "isDigit a" by simp
    with Cons isDigit_chars(4) [of a] show ?thesis by auto
  qed
  have tf: "trimFractionZeros ?str = (if j \<noteq> 0 \<and> fp' \<noteq> [] then pre @ ''.'' @ fp' else ?str)"
    unfolding trimFractionZeros_def Let_def tz dz dd using hd1 by simp
  have res: "trimPointZeros (trimFractionZeros ?str) = (if fp' = [] then pre else pre @ ''.'' @ fp')"
  proof (cases "fp' = []")
    case True
    with s(1) assms(2) have j: "j \<noteq> 0" by auto
    from True tf have "trimFractionZeros ?str = ?str" by simp
    moreover have "trimPointZeros ?str = pre"
      unfolding trimPointZeros_def Let_def tz dz using True j by simp
    ultimately show ?thesis using True by simp
  next
    case False
    show ?thesis
    proof (cases "j = 0")
      case True
      with s(1) have fpe: "fp' = fp" by simp
      from True tf have "trimFractionZeros ?str = ?str" by simp
      moreover have "trimPointZeros ?str = ?str"
        unfolding trimPointZeros_def Let_def tz using True by simp
      ultimately show ?thesis using False fpe by simp
    next
      case j: False
      with tf False have t1: "trimFractionZeros ?str = pre @ ''.'' @ fp'" by simp
      have "takeWhile ?Z (rev (pre @ ''.'' @ fp')) = []"
        using s(3) False by simp
      then have "trimPointZeros (pre @ ''.'' @ fp') = pre @ ''.'' @ fp'"
        unfolding trimPointZeros_def Let_def by simp
      with t1 False show ?thesis by simp
    qed
  qed
  from that [OF s(1,2) res] show thesis .
qed

lemma trim_exponent:
  assumes "0 < X" "sg = CHR ''+'' \<or> sg = CHR ''-''"
  shows "trimPointZeros (trimFractionZeros (body @ ''e'' @ [sg] @ digits X)) = body @ ''e'' @ [sg] @ digits X"
proof -
  let ?Z = "\<lambda>c. c = CHR ''0''"
  let ?str = "body @ ''e'' @ [sg] @ digits X"
  let ?rest = "sg # CHR ''e'' # rev body"
  from digits_leading [OF assms(1)] obtain c cs where c: "digits X = c # cs" "c \<noteq> CHR ''0''" "isDigit c"
    by blast
  from digits_isDigit [of X] assms(1) c(1) have cs: "list_all isDigit cs" by simp
  have r: "rev ?str = rev cs @ c # ?rest" using c(1) by simp
  have dz: "\<exists>ds a. dropWhile ?Z (rev ?str) = a # ds @ ?rest \<and> isDigit a \<and> list_all isDigit ds"
  proof -
    have "dropWhile ?Z (rev cs @ c # ?rest) = dropWhile ?Z (rev cs) @ c # ?rest"
      using c(2) by (intro dropWhile_append3) simp
    moreover from cs have "list_all isDigit (dropWhile ?Z (rev cs))"
      by (auto simp: list_all_iff dest: set_dropWhileD)
    ultimately show ?thesis
      using c(3) unfolding r by (cases "dropWhile ?Z (rev cs)") auto
  qed
  then obtain ds a where d: "dropWhile ?Z (rev ?str) = a # ds @ ?rest" "isDigit a" "list_all isDigit ds"
    by blast
  have sgd: "\<not> isDigit sg" "sg \<noteq> CHR ''.''"
    using assms(2) by (auto simp: not_digit_chars)
  from d(2,3) have "list_all isDigit (a # ds)" by simp
  from takeWhile_digits(2) [OF this, of ?rest] sgd(1)
  have dd: "dropWhile isDigit (a # ds @ ?rest) = ?rest" by simp
  have "trimFractionZeros ?str = ?str"
    unfolding trimFractionZeros_def Let_def d(1) dd using sgd(2) by simp
  moreover have "trimPointZeros ?str = ?str"
    unfolding trimPointZeros_def Let_def d(1) using isDigit_chars(4) [OF d(2)] by simp
  ultimately show ?thesis by simp
qed

lemma parse_fraction:
  assumes sg: "pre = [] \<or> pre = ''-''"
    and ip: "ip \<noteq> []" "list_all isDigit ip"
    and fp: "list_all isDigit fp" "fp \<noteq> []"
  shows "parseFloat (trimPointZeros (trimFractionZeros (pre @ ip @ ''.'' @ fp))) =
    roundToDouble (pre = ''-'') (of_int (decimalValue (ip @ fp)) * 10 powi (- int (length fp)))"
proof -
  from trim_fraction [OF fp, of "pre @ ip"] obtain fp' j where
    t: "fp = fp' @ replicate j (CHR ''0'')" "list_all isDigit fp'"
      "trimPointZeros (trimFractionZeros ((pre @ ip) @ ''.'' @ fp)) =
        (if fp' = [] then pre @ ip else (pre @ ip) @ ''.'' @ fp')"
    by blast
  let ?dot = "if fp' = [] then [] else ''.'' @ fp'"
  have p: "parseFloat (pre @ ip @ ?dot @ []) =
    roundToDouble (pre = ''-'') (of_int (decimalValue (ip @ fp')) * 10 powi (0 - int (length fp')))"
    using sg ip t(2) by (intro parseFloat_canonical [where xd = "[]"]) auto
  have v: "of_int (decimalValue (ip @ fp)) * 10 powi (- int (length fp)) =
    rat_of_int (decimalValue (ip @ fp')) * 10 powi (0 - int (length fp'))"
  proof -
    have "decimalValue (ip @ fp) = decimalValue (ip @ fp') * 10 ^ j"
      using decimalValue_append [of "ip @ fp'" "replicate j (CHR ''0'')"] t(1)
      by (simp add: decimalValue_zeros)
    moreover have "(10::rat) powi (- int (length fp)) = 10 powi (- int (length fp')) * 10 powi (- int j)"
      unfolding t(1) using powi_split [of "- int (length fp')" "- int j"] by simp
    moreover have "(10::rat) ^ j * 10 powi (- int j) = 1"
      by (simp add: power_int_minus)
    ultimately show ?thesis by (simp add: algebra_simps)
  qed
  show ?thesis
  proof (cases "fp' = []")
    case True
    with p v t(3) show ?thesis by simp
  next
    case False
    with p v t(3) show ?thesis by simp
  qed
qed

subsection \<open>Formatting, read back\<close>

lemma digits_no_point: "0 \<le> n \<Longrightarrow> CHR ''.'' \<notin> set (digits n)"
  using digits_isDigit [of n] isDigit_chars(4) by (auto simp: list_all_iff)

lemma digits_no_e: "0 \<le> n \<Longrightarrow> CHR ''e'' \<notin> set (digits n)"
  using digits_isDigit [of n] isDigit_chars(5) by (auto simp: list_all_iff)

lemma zeros_isDigit: "list_all isDigit (replicate j (CHR ''0''))"
  by (simp add: list_all_iff isDigit_def)

lemma formatNumber_finite:
  "formatNumber (Finite neg q) =
    trimPointZeros (trimFractionZeros
      (if CHR ''e'' \<in> set (toPrecision 12 (Finite neg q)) then numberToString (Finite neg q)
       else toPrecision 12 (Finite neg q)))"
  by (simp add: formatNumber_def Let_def trim_no_point)

text \<open>The plain layouts of \<open>toPrecision\<close>, read back.\<close>

lemma parse_toPrecision:
  assumes q: "0 < q" and sd: "sigDigits 12 q = (n, e)" and e: "- 6 \<le> e" "e \<le> 11"
  shows "CHR ''e'' \<notin> set (toPrecision 12 (Finite neg q))"
    "parseFloat (trimPointZeros (trimFractionZeros (toPrecision 12 (Finite neg q)))) =
      roundToDouble neg (of_int n * 10 powi (e - 11))"
proof -
  let ?pre = "if neg then ''-'' else []"
  let ?m = "digits n"
  from sigDigits_range [OF q _ sd] have n: "10 ^ 11 \<le> n" "n < 10 ^ 12" by simp_all
  then have n0: "0 \<le> n" by simp
  from n have len: "length ?m = 12"
    using length_digits [of 11 n] by simp
  note md = digits_isDigit [OF n0]
  note mv = decimalValue_digits [OF n0]
  have pre: "?pre = [] \<or> ?pre = ''-''" "(?pre = ''-'') = neg" by auto
  have prs: "CHR ''e'' \<notin> set ?pre" by simp
  let ?L = "if e = 11 then ?pre @ ?m
    else if 0 \<le> e then ?pre @ take (nat e + 1) ?m @ ''.'' @ drop (nat e + 1) ?m
    else ?pre @ ''0.'' @ replicate (nat (- (e + 1))) (CHR ''0'') @ ?m"
  have L: "toPrecision 12 (Finite neg q) = ?L"
    using q sd e by (simp add: toPrecision_def Let_def)
  have me: "CHR ''e'' \<notin> set ?m" by (rule digits_no_e [OF n0])
  then have "CHR ''e'' \<notin> set (take (nat e + 1) ?m)" "CHR ''e'' \<notin> set (drop (nat e + 1) ?m)"
    by (auto dest: in_set_takeD in_set_dropD)
  with me prs show "CHR ''e'' \<notin> set (toPrecision 12 (Finite neg q))"
    unfolding L by auto
  show "parseFloat (trimPointZeros (trimFractionZeros (toPrecision 12 (Finite neg q)))) =
      roundToDouble neg (of_int n * 10 powi (e - 11))"
  proof (cases "e = 11")
    case True
    have np: "CHR ''.'' \<notin> set (?pre @ ?m)"
      using digits_no_point [OF n0] by simp
    have "parseFloat (?pre @ ?m @ [] @ []) =
      roundToDouble (?pre = ''-'') (of_int (decimalValue (?m @ [])) * 10 powi (0 - int (length ([]::string))))"
      using pre(1) md len by (intro parseFloat_canonical [where xd = "[]"]) auto
    with True mv pre(2) L trim_no_point [OF np] show ?thesis by simp
  next
    case ne: False
    show ?thesis
    proof (cases "0 \<le> e")
      case True
      let ?ip = "take (nat e + 1) ?m"
      let ?fp = "drop (nat e + 1) ?m"
      from True ne e len have l: "?ip \<noteq> []" "?fp \<noteq> []" "int (length ?fp) = 11 - e"
        by auto
      from md have d: "list_all isDigit ?ip" "list_all isDigit ?fp"
        by (auto simp: list_all_iff dest: in_set_takeD in_set_dropD)
      from parse_fraction [OF pre(1) l(1) d(1) d(2) l(2)] mv l(3) pre(2) True ne L show ?thesis
        by simp
    next
      case False
      let ?z = "replicate (nat (- (e + 1))) (CHR ''0'')"
      let ?fp = "?z @ ?m"
      have d: "list_all isDigit ''0''" "list_all isDigit ?fp"
        using md zeros_isDigit [of "nat (- (e + 1))"] by (simp_all add: isDigit_def)
      from len have fl: "?fp \<noteq> []" by auto
      from False len have l: "int (length ?fp) = 11 - e" by simp
      have v: "decimalValue (''0'' @ ?fp) = n"
      proof -
        have "decimalValue ((CHR ''0'' # ?z) @ ?m) = decimalValue (CHR ''0'' # ?z) * 10 ^ length ?m + decimalValue ?m"
          by (rule decimalValue_append)
        moreover have "CHR ''0'' # ?z = replicate (Suc (nat (- (e + 1)))) (CHR ''0'')" by simp
        then have "decimalValue (CHR ''0'' # ?z) = 0"
          by (simp only: decimalValue_zeros)
        ultimately show ?thesis using mv by simp
      qed
      from parse_fraction [OF pre(1) _ d(1) d(2) fl] have
        "parseFloat (trimPointZeros (trimFractionZeros (?pre @ ''0'' @ ''.'' @ ?fp))) =
          roundToDouble (?pre = ''-'') (of_int (decimalValue (''0'' @ ?fp)) * 10 powi (- int (length ?fp)))"
        by simp
      with v l pre(2) False ne L show ?thesis by simp
    qed
  qed
qed

lemma toPrecision_exponent:
  assumes "0 < q" "sigDigits 12 q = (n, e)" "e < - 6 \<or> 12 \<le> e"
  shows "CHR ''e'' \<in> set (toPrecision 12 (Finite neg q))"
  using assms by (simp add: toPrecision_def Let_def)

lemma toPrecision_same:
  assumes "0 < q" "0 < w" "sigDigits 12 w = sigDigits 12 q"
  shows "toPrecision 12 (Finite neg w) = toPrecision 12 (Finite neg q)"
  using assms by (simp add: toPrecision_def Let_def)

text \<open>The layouts of \<open>numberToString\<close>, read back.\<close>

lemma parse_numberToString:
  assumes dq: "isDouble q" and q: "0 < q"
  shows "parseFloat (trimPointZeros (trimFractionZeros (numberToString (Finite neg q)))) = Finite neg q"
proof -
  obtain n k s where sh: "shortest q = (n, k, s)"
    by (cases "shortest q") auto
  note sp = shortest_props [OF dq q sh]
  let ?pre = "if neg then ''-'' else []"
  let ?ds = "digits s"
  have s0: "0 < s"
  proof -
    have "(0::int) < 10 ^ (k - 1)" by simp
    with sp(2) show ?thesis by linarith
  qed
  from sp(1) obtain k' where k': "k = Suc k'" by (cases k) auto
  from sp(2,3) have len: "length ?ds = k"
    unfolding k' using length_digits [of k' s] by simp
  from s0 have sd: "list_all isDigit ?ds" by (intro digits_isDigit) simp
  from s0 have sv: "decimalValue ?ds = s" by (intro decimalValue_digits) simp
  have pre: "?pre = [] \<or> ?pre = ''-''" "(?pre = ''-'') = neg" by auto
  let ?val = "of_int s * (10::rat) powi (n - int k)"
  from sp(4) have rt: "roundToDouble neg ?val = Finite neg q"
    by (simp only: roundToDouble_sign [of neg])
  have "parseFloat (trimPointZeros (trimFractionZeros (numberToString (Finite neg q)))) =
    roundToDouble neg ?val"
  proof (cases "- 5 \<le> n \<and> n \<le> 21")
    case plain: True
    show ?thesis
    proof (cases "int k \<le> n")
      case True
      let ?z = "replicate (nat n - k) (CHR ''0'')"
      have L: "numberToString (Finite neg q) = ?pre @ ?ds @ ?z"
        using q sh plain True by (simp add: numberToString_def)
      have np: "CHR ''.'' \<notin> set (?pre @ ?ds @ ?z)"
        using digits_no_point [of s] s0 by simp
      have d: "list_all isDigit (?ds @ ?z)" "?ds @ ?z \<noteq> []"
        using sd zeros_isDigit [of "nat n - k"] len sp(1) by auto
      have "parseFloat (?pre @ (?ds @ ?z) @ [] @ []) =
        roundToDouble (?pre = ''-'')
          (of_int (decimalValue ((?ds @ ?z) @ [])) * 10 powi (0 - int (length ([]::string))))"
        using pre(1) d by (intro parseFloat_canonical [where xd = "[]"]) auto
      moreover have "decimalValue (?ds @ ?z) = s * 10 ^ (nat n - k)"
        using decimalValue_append [of ?ds ?z] sv by (simp add: decimalValue_zeros)
      moreover from True have "(10::rat) powi (n - int k) = 10 ^ (nat n - k)"
        by (simp add: power_int_def nat_diff_distrib)
      ultimately show ?thesis
        using L pre(2) trim_no_point [OF np] by simp
    next
      case False
      show ?thesis
      proof (cases "0 < n")
        case True
        let ?ip = "take (nat n) ?ds"
        let ?fp = "drop (nat n) ?ds"
        have L: "numberToString (Finite neg q) = ?pre @ ?ip @ ''.'' @ ?fp"
          using q sh plain False True by (simp add: numberToString_def)
        from True False len have l: "?ip \<noteq> []" "?fp \<noteq> []" "int (length ?fp) = int k - n"
          by auto
        from sd have d: "list_all isDigit ?ip" "list_all isDigit ?fp"
          by (auto simp: list_all_iff dest: in_set_takeD in_set_dropD)
        from parse_fraction [OF pre(1) l(1) d(1) d(2) l(2)] sv l(3) pre(2) L show ?thesis
          by simp
      next
        case n0: False
        let ?z = "replicate (nat (- n)) (CHR ''0'')"
        let ?fp = "?z @ ?ds"
        have L: "numberToString (Finite neg q) = ?pre @ ''0'' @ ''.'' @ ?fp"
          using q sh plain False n0 by (simp add: numberToString_def)
        have d: "list_all isDigit ''0''" "list_all isDigit ?fp"
          using sd zeros_isDigit [of "nat (- n)"] by (simp_all add: isDigit_def)
        from len sp(1) have fl: "?fp \<noteq> []" by auto
        from n0 len have l: "int (length ?fp) = int k - n" by simp
        have v: "decimalValue (''0'' @ ?fp) = s"
        proof -
          have "decimalValue ((CHR ''0'' # ?z) @ ?ds) =
            decimalValue (CHR ''0'' # ?z) * 10 ^ length ?ds + decimalValue ?ds"
            by (rule decimalValue_append)
          moreover have "CHR ''0'' # ?z = replicate (Suc (nat (- n))) (CHR ''0'')" by simp
          then have "decimalValue (CHR ''0'' # ?z) = 0"
            by (simp only: decimalValue_zeros)
          ultimately show ?thesis using sv by simp
        qed
        from parse_fraction [OF pre(1) _ d(1) d(2) fl] have
          "parseFloat (trimPointZeros (trimFractionZeros (?pre @ ''0'' @ ''.'' @ ?fp))) =
            roundToDouble (?pre = ''-'') (of_int (decimalValue (''0'' @ ?fp)) * 10 powi (- int (length ?fp)))"
          by simp
        with v l pre(2) L show ?thesis by simp
      qed
    qed
  next
    case expo: False
    let ?X = "\<bar>n - 1\<bar>"
    let ?sg = "if 0 < n - 1 then CHR ''+'' else CHR ''-''"
    let ?xd = "digits ?X"
    from expo have X: "0 < ?X" by auto
    from expo have cf: "(- 5 \<le> n \<and> n \<le> 21) = False" by simp
    have sg: "?sg = CHR ''+'' \<or> ?sg = CHR ''-''" by simp
    have xd: "list_all isDigit ?xd" by (intro digits_isDigit) simp
    have xv: "decimalValue ?xd = ?X" by (intro decimalValue_digits) simp
    let ?ex = "''e'' @ [?sg] @ ?xd"
    have ex: "?ex = [] \<and> n - 1 = 0 \<or> ?ex = ''e+'' @ ?xd \<and> n - 1 = decimalValue ?xd \<or>
      ?ex = ''e-'' @ ?xd \<and> n - 1 = - decimalValue ?xd"
      using xv expo by auto
    show ?thesis
    proof (cases "k = 1")
      case True
      have L: "numberToString (Finite neg q) = (?pre @ ?ds) @ ''e'' @ [?sg] @ ?xd"
        using q sh True by (simp add: numberToString_def cf)
      from len True have ne: "?ds \<noteq> []" by auto
      have "parseFloat (?pre @ ?ds @ [] @ ?ex) =
        roundToDouble (?pre = ''-'')
          (of_int (decimalValue (?ds @ [])) * 10 powi ((n - 1) - int (length ([]::string))))"
        using pre(1) ne sd xd ex by (intro parseFloat_canonical [where xd = ?xd]) auto
      with L trim_exponent [OF X sg, of "?pre @ ?ds"] sv True pre(2) show ?thesis
        by simp
    next
      case False
      let ?ip = "take 1 ?ds"
      let ?fp = "drop 1 ?ds"
      have L: "numberToString (Finite neg q) = (?pre @ ?ip @ ''.'' @ ?fp) @ ''e'' @ [?sg] @ ?xd"
        using q sh False by (simp add: numberToString_def cf)
      from len sp(1) False have l: "?ip \<noteq> []" "int (length ?fp) = int k - 1"
        by auto
      from sd have d: "list_all isDigit ?ip" "list_all isDigit ?fp"
        by (auto simp: list_all_iff dest: in_set_takeD in_set_dropD)
      have pf: "parseFloat (?pre @ ?ip @ (''.'' @ ?fp) @ ?ex) =
        roundToDouble (?pre = ''-'')
          (of_int (decimalValue (?ip @ ?fp)) * 10 powi ((n - 1) - int (length ?fp)))"
        using pre(1) l(1) d xd ex by (intro parseFloat_canonical [where xd = ?xd]) auto
      have eq: "n - 1 - int (length ?fp) = n - int k" using l(2) by simp
      from pf have "parseFloat (?pre @ ?ip @ (''.'' @ ?fp) @ ?ex) =
        roundToDouble (?pre = ''-'') (of_int (decimalValue (?ip @ ?fp)) * 10 powi (n - int k))"
        by (simp only: eq)
      then show ?thesis
        using L trim_exponent [OF X sg, of "?pre @ ?ip @ ''.'' @ ?fp"] sv pre(2) by simp
    qed
  qed
  with rt show ?thesis by simp
qed

lemma formatNumber_zero: "formatNumber (Finite neg 0) = ''0''"
proof -
  have "formatNumber (Finite True 0) = ''0''" "formatNumber (Finite False 0) = ''0''"
    by code_simp+
  then show ?thesis by (cases neg) simp_all
qed

lemma parseFloat_zero: "parseFloat ''0'' = Finite False 0"
  by code_simp

text \<open>
  C9. Formatting is idempotent through parsing: for every Number, finite or not, the
  formatted text parses to a Number that is formatted to the same text.
\<close>

theorem formatNumber_idempotent:
  "isNumber n \<longrightarrow> formatNumber (parseFloat (formatNumber n)) = formatNumber n"
proof (cases n)
  case NaN
  have "formatNumber (parseFloat (formatNumber NaN)) = formatNumber NaN"
    by code_simp
  with NaN show ?thesis by simp
next
  case (Infinity neg)
  have "formatNumber (parseFloat (formatNumber (Infinity True))) = formatNumber (Infinity True)"
    "formatNumber (parseFloat (formatNumber (Infinity False))) = formatNumber (Infinity False)"
    by code_simp+
  with Infinity show ?thesis by (cases neg) simp_all
next
  case (Finite neg q)
  show ?thesis
  proof
    assume "isNumber n"
    with Finite have dq: "isDouble q" by simp
    then have q0: "0 \<le> q" by (simp add: isDouble_def)
    show "formatNumber (parseFloat (formatNumber n)) = formatNumber n"
    proof (cases "q = 0")
      case True
      with Finite show ?thesis
        by (simp add: formatNumber_zero parseFloat_zero)
    next
      case False
      with q0 have q: "0 < q" by simp
      obtain m e where sd: "sigDigits 12 q = (m, e)"
        by (cases "sigDigits 12 q") auto
      show ?thesis
      proof (cases "e < - 6 \<or> 12 \<le> e")
        case True
        from toPrecision_exponent [OF q sd True, of neg]
        have "formatNumber n = trimPointZeros (trimFractionZeros (numberToString n))"
          unfolding Finite formatNumber_finite by simp
        with parse_numberToString [OF dq q, of neg] Finite show ?thesis by simp
      next
        case False
        then have e: "- 6 \<le> e" "e \<le> 11" by auto
        note pt = parse_toPrecision [OF q sd e, of neg]
        from pt(1) have f: "formatNumber n = trimPointZeros (trimFractionZeros (toPrecision 12 n))"
          unfolding Finite formatNumber_finite by simp
        from caseA_numeric [OF q sd e, of neg] obtain w where
          w: "roundToDouble neg (of_int m * 10 powi (e - 11)) = Finite neg w" "0 < w"
            "sigDigits 12 w = (m, e)"
          by blast
        from f pt(2) w(1) Finite have p: "parseFloat (formatNumber n) = Finite neg w" by simp
        from toPrecision_same [OF q w(2), of neg] w(3) sd
        have same: "toPrecision 12 (Finite neg w) = toPrecision 12 n"
          unfolding Finite by simp
        with pt(1) have "formatNumber (Finite neg w) =
          trimPointZeros (trimFractionZeros (toPrecision 12 n))"
          unfolding Finite formatNumber_finite by simp
        with p f show ?thesis by simp
      qed
    qed
  qed
qed

theorem formatNumber_idempotent_witness:
  "isNumber (Finite False (3602879701896397 / 2 ^ 54)) \<and>
   formatNumber (Finite False (3602879701896397 / 2 ^ 54)) = ''0.2'' \<and>
   formatNumber (parseFloat ''0.2'') = ''0.2'' \<and>
   isNumber (Finite True (10 ^ 21)) \<and>
   formatNumber (Finite True (10 ^ 21)) = ''-1e+21'' \<and>
   formatNumber (parseFloat ''-1e+21'') = ''-1e+21''"
proof -
  have a: "isNumber (Finite False (3602879701896397 / 2 ^ 54))" "isNumber (Finite True (10 ^ 21))"
    by code_simp+
  have b: "formatNumber (Finite False (3602879701896397 / 2 ^ 54)) = ''0.2''"
    "formatNumber (Finite True (10 ^ 21)) = ''-1e+21''"
    by code_simp+
  from formatNumber_idempotent [of "Finite False (3602879701896397 / 2 ^ 54)"]
    formatNumber_idempotent [of "Finite True (10 ^ 21)"] a b
  show ?thesis by simp
qed

end
